theory Spec2Isabelle
  imports Main "HOL-Library.Word"
begin

section \<open>Data model of the OCR auto clicker (main.py)\<close>

text \<open>
  A Python \<open>str\<close> is a sequence of Unicode code points, a \<open>bytes\<close> object a
  sequence of octets. The integers of the program are Python's unbounded ones.
\<close>

type_synonym pystr = "nat list"
type_synonym bytes = "8 word list"

text \<open>
  Exceptions are values. \<open>KeyError\<close> and \<open>IndexError\<close> are the two the program's
  own subscripting can raise; \<open>Raised msg\<close> stands for any exception thrown by a
  library call (pyautogui, ddddocr, base64, json).
\<close>

datatype exn = KeyError string | IndexError | Raised string

text \<open>
  \<open>class CaptureInfo\<close>: the attributes \<open>x\<close>, \<open>y\<close>, \<open>width\<close>, \<open>height\<close> and
  \<open>image\<close> carry the prefix \<open>cap_\<close> here, the other two keep their names. The image is
  a \<open>QPixmap\<close>, opaque to the program: a type parameter.
\<close>

record 'img capture_info =
  cap_x :: int
  cap_y :: int
  cap_width :: int
  cap_height :: int
  cap_image :: 'img
  ocr_text :: pystr
  click_count :: int

text \<open>\<open>CaptureInfo.__init__\<close>: a new region starts with one click.\<close>

definition CaptureInfo ::
  "int \<Rightarrow> int \<Rightarrow> int \<Rightarrow> int \<Rightarrow> 'img \<Rightarrow> pystr \<Rightarrow> 'img capture_info" where
  "CaptureInfo vx vy vwidth vheight vpixmap vtext =
     \<lparr>cap_x = vx, cap_y = vy, cap_width = vwidth, cap_height = vheight,
      cap_image = vpixmap, ocr_text = vtext, click_count = 1\<rparr>"

text \<open>
  \<open>CaptureInfo.__str__\<close> formats the recognised text and the click count into the row
  shown in the list widget; the row is kept as the pair of the two values.
\<close>

definition str_capture :: "'img capture_info \<Rightarrow> pystr \<times> int" where
  "str_capture c = (ocr_text c, click_count c)"

text \<open>
  One record of the persisted file, as the dictionary \<open>json.load\<close> hands to
  \<open>from_dict\<close>: every key is present (\<open>Some\<close>) or absent (\<open>None\<close>), and a present key
  holds a value of the type the schema gives it.
\<close>

record saved_dict =
  d_x :: "int option"
  d_y :: "int option"
  d_width :: "int option"
  d_height :: "int option"
  d_ocr_text :: "pystr option"
  d_click_count :: "int option"
  d_encoded_image :: "pystr option"

text \<open>
  The library calls of the program, as parameters: the pointer and screen of pyautogui
  over a desktop \<open>'w\<close>, the recogniser of ddddocr, the PNG codec of Qt, base64, and json
  over a file content \<open>'f\<close>. \<open>screenshot\<close> is \<open>pyautogui.screenshot(region=...)\<close>
  followed by the image's \<open>save\<close> as PNG into a byte buffer. \<open>QPixmap.save\<close> and
  \<open>QPixmap.loadFromData\<close> report failure by a flag the program ignores, so they are
  total here (a failed load leaves the null pixmap). \<open>json_load\<close> is \<open>json.load\<close> on a
  file whose content, when it parses, is a list of such records; content of another
  shape is not modelled. \<open>open_write\<close> is \<open>open(JSON_FILE, 'w')\<close> on the file as it
  is: it raises and leaves the file alone, or it truncates the file. \<open>json_dump\<close> is
  \<open>json.dump\<close> into the opened file: the content written, or the exception raised
  together with the partial content it leaves behind.
\<close>

record ('img, 'f, 'w) host =
  position :: "'w \<Rightarrow> exn + int \<times> int"
  screenshot :: "'w \<Rightarrow> int \<times> int \<times> int \<times> int \<Rightarrow> exn + bytes"
  moveTo :: "'w \<Rightarrow> int \<times> int \<Rightarrow> exn + 'w"
  click :: "'w \<Rightarrow> exn + 'w"
  classification :: "bytes \<Rightarrow> exn + pystr"
  save_png :: "'img \<Rightarrow> bytes"
  loadFromData :: "bytes \<Rightarrow> 'img"
  b64encode :: "bytes \<Rightarrow> pystr"
  b64decode :: "pystr \<Rightarrow> exn + bytes"
  open_write :: "'f option \<Rightarrow> exn option"
  json_dump :: "saved_dict list \<Rightarrow> exn \<times> 'f + 'f"
  json_load :: "'f \<Rightarrow> exn + saved_dict list"

text \<open>The texts the status label is set to, and the message boxes the program opens.\<close>

datatype status =
    Ready
  | Started
  | Clicking pystr nat int
  | Skipped pystr pystr
  | Completed
  | ExecError exn
  | SingleStarted
  | SingleClicking pystr
  | SingleCompleted
  | SingleError exn
  | RunnerStarted
  | RunnerStopped

datatype dialog =
    ExecWarning exn
  | LoadWarning exn
  | SelectNotice
  | AlreadyRunning
  | StartNotice

text \<open>The calls made to the pointer primitive, in the order they are made.\<close>

datatype call = MoveTo "int \<times> int" | Click

text \<open>
  \<open>class WorkerThread\<close>: the flag \<open>keep_running\<close> and the point its \<open>run\<close> loop has
  reached: at the loop's test, inside a batch (with the pointer position recorded at
  the batch's start and the position the iteration over \<open>self.captures\<close> has reached),
  in the pause after a batch, or returned.
\<close>

datatype progress =
    LoopHead
  | InBatch "int \<times> int" nat
  | Sleeping
  | Finished

record worker =
  keep_running :: bool
  progress :: progress

text \<open>
  The state the program works on: the attributes of \<open>MainWindow\<close> (\<open>captures\<close>, the rows
  of \<open>capture_list\<close>, the text of \<open>status_label\<close>, \<open>worker_thread\<close> as a reference into
  the threads created so far, whether the event filter is installed), the message boxes
  shown so far, the file \<open>saved_captures.json\<close> (\<open>None\<close> when it does not exist), the
  desktop, and the calls made to the pointer so far.
\<close>

record ('img, 'f, 'w) system =
  captures :: "'img capture_info list"
  capture_list :: "(pystr \<times> int) list"
  status_label :: status
  dialogs :: "dialog list"
  event_filter :: bool
  threads :: "worker list"
  worker_thread :: "nat option"
  json_file :: "'f option"
  desktop :: 'w
  pointer_calls :: "call list"

section \<open>Serialisation and the persisted file\<close>

text \<open>\<open>CaptureInfo.to_dict\<close>.\<close>

definition to_dict :: "('img, 'f, 'w) host \<Rightarrow> 'img capture_info \<Rightarrow> saved_dict" where
  "to_dict h c =
     (let byte_array = save_png h (cap_image c);
          encoded_image = b64encode h byte_array
      in \<lparr>d_x = Some (cap_x c), d_y = Some (cap_y c), d_width = Some (cap_width c),
          d_height = Some (cap_height c), d_ocr_text = Some (ocr_text c),
          d_click_count = Some (click_count c), d_encoded_image = Some encoded_image\<rparr>)"

text \<open>
  \<open>data[key]\<close>: a missing key raises \<open>KeyError\<close>.
\<close>

definition getitem :: "'a option \<Rightarrow> string \<Rightarrow> exn + 'a" where
  "getitem v key = (case v of None \<Rightarrow> Inl (KeyError key) | Some a \<Rightarrow> Inr a)"

text \<open>
  \<open>CaptureInfo.from_dict\<close>, the lookups in the order the source evaluates them:
  \<open>encoded_image\<close> first, then the arguments of the constructor left to right, and
  \<open>data.get("click_count", 1)\<close> last.
\<close>

definition from_dict :: "('img, 'f, 'w) host \<Rightarrow> saved_dict \<Rightarrow> exn + 'img capture_info" where
  "from_dict h data =
     (case getitem (d_encoded_image data) ''encoded_image'' of Inl e \<Rightarrow> Inl e
      | Inr enc \<Rightarrow>
     (case b64decode h enc of Inl e \<Rightarrow> Inl e
      | Inr decoded_image \<Rightarrow>
     (let qpixmap = loadFromData h decoded_image in
     (case getitem (d_x data) ''x'' of Inl e \<Rightarrow> Inl e
      | Inr vx \<Rightarrow>
     (case getitem (d_y data) ''y'' of Inl e \<Rightarrow> Inl e
      | Inr vy \<Rightarrow>
     (case getitem (d_width data) ''width'' of Inl e \<Rightarrow> Inl e
      | Inr vwidth \<Rightarrow>
     (case getitem (d_height data) ''height'' of Inl e \<Rightarrow> Inl e
      | Inr vheight \<Rightarrow>
     (case getitem (d_ocr_text data) ''ocr_text'' of Inl e \<Rightarrow> Inl e
      | Inr vtext \<Rightarrow>
        Inr ((CaptureInfo vx vy vwidth vheight qpixmap vtext)
               \<lparr>click_count := (case d_click_count data of None \<Rightarrow> 1 | Some n \<Rightarrow> n)\<rparr>)))))))))"

text \<open>
  The \<open>with open(JSON_FILE, 'w') ... json.dump(data, f, ...)\<close> of
  \<open>save_captures_to_json\<close>, on the file alone: the exception raised, if any, and the
  file afterwards. An exception of \<open>open\<close> leaves the file as it was; one of
  \<open>json.dump\<close> leaves what had been written of the new content.
\<close>

definition write_json ::
  "('img, 'f, 'w) host \<Rightarrow> saved_dict list \<Rightarrow> 'f option \<Rightarrow> exn option \<times> 'f option" where
  "write_json h data file =
     (case open_write h file of
        Some e \<Rightarrow> (Some e, file)
      | None \<Rightarrow>
          (case json_dump h data of
             Inl (e, partial) \<Rightarrow> (Some e, Some partial)
           | Inr content \<Rightarrow> (None, Some content)))"

text \<open>
  \<open>MainWindow.save_captures_to_json\<close>: the whole store is serialised and written,
  replacing the file. Nothing in it or in its callers catches an exception of the
  write.
\<close>

definition save_captures_to_json ::
  "('img, 'f, 'w) host \<Rightarrow> ('img, 'f, 'w) system \<Rightarrow> exn option \<times> ('img, 'f, 'w) system" where
  "save_captures_to_json h s =
     (let data = map (to_dict h) (captures s);
          written = write_json h data (json_file s)
      in (fst written, s\<lparr>json_file := snd written\<rparr>))"

text \<open>
  The loop of \<open>load_captures_from_json\<close> over the parsed records. An exception of
  \<open>from_dict\<close> leaves the loop; the regions appended before it stay in the store.
\<close>

fun load_items ::
  "('img, 'f, 'w) host \<Rightarrow> saved_dict list \<Rightarrow> ('img, 'f, 'w) system \<Rightarrow>
   exn option \<times> ('img, 'f, 'w) system" where
  "load_items h [] s = (None, s)"
| "load_items h (item # items) s =
     (case from_dict h item of
        Inl e \<Rightarrow> (Some e, s)
      | Inr capture \<Rightarrow>
          load_items h items
            (s\<lparr>captures := captures s @ [capture],
               capture_list := capture_list s @ [str_capture capture]\<rparr>))"

text \<open>
  \<open>MainWindow.load_captures_from_json\<close>: nothing happens when the file does not exist;
  every exception of the \<open>try\<close> block ends in the warning box of its handler.
\<close>

definition load_captures_from_json ::
  "('img, 'f, 'w) host \<Rightarrow> ('img, 'f, 'w) system \<Rightarrow> exn option \<times> ('img, 'f, 'w) system" where
  "load_captures_from_json h s =
     (case json_file s of
        None \<Rightarrow> (None, s)
      | Some f \<Rightarrow>
          (case (case json_load h f of
                   Inl e \<Rightarrow> (Some e, s)
                 | Inr data_list \<Rightarrow>
                     load_items h data_list (s\<lparr>captures := [], capture_list := []\<rparr>)) of
             (Some e, s') \<Rightarrow> (None, s'\<lparr>dialogs := dialogs s' @ [LoadWarning e]\<rparr>)
           | (None, s') \<Rightarrow> (None, s')))"

text \<open>
  \<open>MainWindow.__init__\<close>: an empty store, no worker thread, then the load of the
  persisted file.
\<close>

definition init_window :: "'f option \<Rightarrow> 'w \<Rightarrow> ('img, 'f, 'w) system" where
  "init_window file w =
     \<lparr>captures = [], capture_list = [], status_label = Ready, dialogs = [],
      event_filter = False, threads = [], worker_thread = None, json_file = file,
      desktop = w, pointer_calls = []\<rparr>"

definition startup ::
  "('img, 'f, 'w) host \<Rightarrow> 'f option \<Rightarrow> 'w \<Rightarrow> exn option \<times> ('img, 'f, 'w) system" where
  "startup h file w = load_captures_from_json h (init_window file w)"

section \<open>Operations of the region store\<close>

text \<open>\<open>QListWidget.takeItem(row)\<close>: a row the widget does not have removes nothing.\<close>

definition takeItem :: "'a list \<Rightarrow> nat \<Rightarrow> 'a list" where
  "takeItem rows n = take n rows @ drop (Suc n) rows"

text \<open>
  \<open>MainWindow.delete_capture\<close>. \<open>current_row\<close> is what \<open>currentRow()\<close> returns: -1 when
  no row is selected. \<open>list.pop\<close> raises \<open>IndexError\<close> for an index the list does not
  have, and nothing catches it. The region is removed from the store before the file is
  written, so it stays removed when the write raises.
\<close>

definition delete_capture ::
  "('img, 'f, 'w) host \<Rightarrow> int \<Rightarrow> ('img, 'f, 'w) system \<Rightarrow> exn option \<times> ('img, 'f, 'w) system" where
  "delete_capture h current_row s =
     (if current_row \<ge> 0 then
        (let n = nat current_row;
             s1 = s\<lparr>capture_list := takeItem (capture_list s) n\<rparr>
         in if n < length (captures s1)
            then save_captures_to_json h
                   (s1\<lparr>captures := take n (captures s1) @ drop (Suc n) (captures s1)\<rparr>)
            else (Some IndexError, s1))
      else (None, s))"

text \<open>The presets of \<open>set_click_count\<close> and \<open>list.index\<close> (the first position of a value).\<close>

definition counts :: "int list" where
  "counts = [1, 2, 3, 5, 10]"

fun index_of :: "'a list \<Rightarrow> 'a \<Rightarrow> nat" where
  "index_of [] v = 0"
| "index_of (a # as) v = (if a = v then 0 else Suc (index_of as v))"

text \<open>
  The two middle lines of \<open>set_click_count\<close>: the position of the current value among
  the presets (0 when it is not one of them), and the preset after that position.
\<close>

definition next_click_count :: "int \<Rightarrow> int" where
  "next_click_count n =
     (let current_index = (if n \<in> set counts then index_of counts n else 0)
      in counts ! ((current_index + 1) mod length counts))"

text \<open>
  \<open>MainWindow.set_click_count\<close>: the selected region's count moves on, its row is
  rewritten, and the store is saved (the count is assigned before the file is written).
  \<open>self.captures[current_row]\<close> raises \<open>IndexError\<close> for a row the store does not have.
\<close>

definition set_click_count ::
  "('img, 'f, 'w) host \<Rightarrow> int \<Rightarrow> ('img, 'f, 'w) system \<Rightarrow> exn option \<times> ('img, 'f, 'w) system" where
  "set_click_count h current_row s =
     (if current_row \<ge> 0 then
        (let n = nat current_row
         in if n < length (captures s)
            then (let capture = (captures s ! n)
                                  \<lparr>click_count := next_click_count (click_count (captures s ! n))\<rparr>
                  in save_captures_to_json h
                       (s\<lparr>captures := (captures s)[n := capture],
                          capture_list := (capture_list s)[n := str_capture capture]\<rparr>))
            else (Some IndexError, s))
      else (None, s))"

section \<open>The click executor\<close>

text \<open>
  \<open>str.strip()\<close> removes the white space at both ends. White space is what
  \<open>str.isspace\<close> accepts: the code points 9 to 13, 28 to 32, U+0085, U+00A0, U+1680,
  U+2000 to U+200A, U+2028, U+2029, U+202F, U+205F and U+3000.
\<close>

definition py_isspace :: "nat \<Rightarrow> bool" where
  "py_isspace c \<longleftrightarrow>
     (9 \<le> c \<and> c \<le> 13) \<or> (28 \<le> c \<and> c \<le> 32) \<or> c = 133 \<or> c = 160 \<or> c = 5760 \<or>
     (8192 \<le> c \<and> c \<le> 8202) \<or> c = 8232 \<or> c = 8233 \<or> c = 8239 \<or> c = 8287 \<or> c = 12288"

definition strip :: "pystr \<Rightarrow> pystr" where
  "strip t = rev (dropWhile py_isspace (rev (dropWhile py_isspace t)))"

text \<open>
  \<open>pyautogui.moveTo(x, y, duration=0.2)\<close> and \<open>pyautogui.click()\<close>: the call is
  recorded, then it either raises or changes the desktop.
\<close>

definition call_moveTo ::
  "('img, 'f, 'w) host \<Rightarrow> int \<times> int \<Rightarrow> ('img, 'f, 'w) system \<Rightarrow>
   exn option \<times> ('img, 'f, 'w) system" where
  "call_moveTo h p s =
     (let s' = s\<lparr>pointer_calls := pointer_calls s @ [MoveTo p]\<rparr>
      in case moveTo h (desktop s) p of
           Inl e \<Rightarrow> (Some e, s')
         | Inr w \<Rightarrow> (None, s'\<lparr>desktop := w\<rparr>))"

definition call_click ::
  "('img, 'f, 'w) host \<Rightarrow> ('img, 'f, 'w) system \<Rightarrow> exn option \<times> ('img, 'f, 'w) system" where
  "call_click h s =
     (let s' = s\<lparr>pointer_calls := pointer_calls s @ [Click]\<rparr>
      in case click h (desktop s) of
           Inl e \<Rightarrow> (Some e, s')
         | Inr w \<Rightarrow> (None, s'\<lparr>desktop := w\<rparr>))"

text \<open>
  The inner loop \<open>for i in range(capture.click_count)\<close> of \<open>execute_all_clicks\<close>, over
  the values of \<open>i\<close> still to come: the status text (not in continuous mode), the move
  to the click point, the click. The pauses and \<open>processEvents\<close> leave no trace here.
\<close>

fun click_loop ::
  "('img, 'f, 'w) host \<Rightarrow> bool \<Rightarrow> 'img capture_info \<Rightarrow> int \<times> int \<Rightarrow> nat list \<Rightarrow>
   ('img, 'f, 'w) system \<Rightarrow> exn option \<times> ('img, 'f, 'w) system" where
  "click_loop h infinite_mode capture p [] s = (None, s)"
| "click_loop h infinite_mode capture p (i # is) s =
     (let s1 = (if \<not> infinite_mode
                then s\<lparr>status_label :=
                         Clicking (ocr_text capture) (i + 1) (click_count capture)\<rparr>
                else s)
      in case call_moveTo h p s1 of
           (Some e, s2) \<Rightarrow> (Some e, s2)
         | (None, s2) \<Rightarrow>
             (case call_click h s2 of
                (Some e, s3) \<Rightarrow> (Some e, s3)
              | (None, s3) \<Rightarrow> click_loop h infinite_mode capture p is s3))"

text \<open>
  The body of the loop \<open>for capture in self.captures\<close>: capture the region afresh,
  recognise it, compare the trimmed texts, and click or skip. \<open>range(n)\<close> is empty for
  \<open>n\<close> not above 0.
\<close>

definition process_capture ::
  "('img, 'f, 'w) host \<Rightarrow> bool \<Rightarrow> 'img capture_info \<Rightarrow> ('img, 'f, 'w) system \<Rightarrow>
   exn option \<times> ('img, 'f, 'w) system" where
  "process_capture h infinite_mode capture s =
     (case screenshot h (desktop s)
             (cap_x capture, cap_y capture, cap_width capture, cap_height capture) of
        Inl e \<Rightarrow> (Some e, s)
      | Inr img_bytes \<Rightarrow>
          (case classification h img_bytes of
             Inl e \<Rightarrow> (Some e, s)
           | Inr current_ocr_text \<Rightarrow>
               if strip current_ocr_text = strip (ocr_text capture)
               then (let click_x = cap_x capture + cap_width capture div 2;
                         click_y = cap_y capture + cap_height capture div 2
                     in click_loop h infinite_mode capture (click_x, click_y)
                          [0..<nat (click_count capture)] s)
               else (None, if \<not> infinite_mode
                           then s\<lparr>status_label :=
                                    Skipped (ocr_text capture) current_ocr_text\<rparr>
                           else s)))"

text \<open>The loop over the regions, in store order; an exception leaves it.\<close>

fun run_captures ::
  "('img, 'f, 'w) host \<Rightarrow> bool \<Rightarrow> 'img capture_info list \<Rightarrow> ('img, 'f, 'w) system \<Rightarrow>
   exn option \<times> ('img, 'f, 'w) system" where
  "run_captures h infinite_mode [] s = (None, s)"
| "run_captures h infinite_mode (capture # rest) s =
     (case process_capture h infinite_mode capture s of
        (Some e, s') \<Rightarrow> (Some e, s')
      | (None, s') \<Rightarrow> run_captures h infinite_mode rest s')"

text \<open>
  The rest of the \<open>try\<close> block once the pointer position \<open>original\<close> is recorded: the
  regions still to process, the move back to \<open>original\<close>, the closing status text.
\<close>

definition finish_batch ::
  "('img, 'f, 'w) host \<Rightarrow> bool \<Rightarrow> int \<times> int \<Rightarrow> 'img capture_info list \<Rightarrow>
   ('img, 'f, 'w) system \<Rightarrow> exn option \<times> ('img, 'f, 'w) system" where
  "finish_batch h infinite_mode original rest s =
     (case run_captures h infinite_mode rest s of
        (Some e, s1) \<Rightarrow> (Some e, s1)
      | (None, s1) \<Rightarrow>
          (case call_moveTo h original s1 of
             (Some e, s2) \<Rightarrow> (Some e, s2)
           | (None, s2) \<Rightarrow>
               (None, if \<not> infinite_mode then s2\<lparr>status_label := Completed\<rparr> else s2)))"

text \<open>The \<open>try\<close> block of \<open>execute_all_clicks\<close>.\<close>

definition try_all_clicks ::
  "('img, 'f, 'w) host \<Rightarrow> bool \<Rightarrow> ('img, 'f, 'w) system \<Rightarrow>
   exn option \<times> ('img, 'f, 'w) system" where
  "try_all_clicks h infinite_mode s =
     (let s0 = (if \<not> infinite_mode then s\<lparr>status_label := Started\<rparr> else s)
      in case position h (desktop s0) of
           Inl e \<Rightarrow> (Some e, s0)
         | Inr original \<Rightarrow> finish_batch h infinite_mode original (captures s0) s0)"

text \<open>
  \<open>MainWindow.execute_all_clicks\<close>: the \<open>try\<close> block and its handler, which reports the
  exception (status text and warning box) unless the batch runs in continuous mode.
\<close>

definition execute_all_clicks ::
  "('img, 'f, 'w) host \<Rightarrow> bool \<Rightarrow> ('img, 'f, 'w) system \<Rightarrow>
   exn option \<times> ('img, 'f, 'w) system" where
  "execute_all_clicks h infinite_mode s =
     (case try_all_clicks h infinite_mode s of
        (Some e, s') \<Rightarrow>
          (None, if \<not> infinite_mode
                 then s'\<lparr>status_label := ExecError e, dialogs := dialogs s' @ [ExecWarning e]\<rparr>
                 else s')
      | (None, s') \<Rightarrow> (None, s'))"

text \<open>
  \<open>MainWindow.execute_single_click\<close>: the same check and a single click for the selected
  region; without a valid selection only a notice is shown.
\<close>

definition try_single_click ::
  "('img, 'f, 'w) host \<Rightarrow> 'img capture_info \<Rightarrow> ('img, 'f, 'w) system \<Rightarrow>
   exn option \<times> ('img, 'f, 'w) system" where
  "try_single_click h capture s =
     (let s0 = s\<lparr>status_label := SingleStarted\<rparr>
      in case position h (desktop s0) of
           Inl e \<Rightarrow> (Some e, s0)
         | Inr original \<Rightarrow>
     (case screenshot h (desktop s0)
             (cap_x capture, cap_y capture, cap_width capture, cap_height capture) of
        Inl e \<Rightarrow> (Some e, s0)
      | Inr img_bytes \<Rightarrow>
     (case classification h img_bytes of
        Inl e \<Rightarrow> (Some e, s0)
      | Inr current_ocr_text \<Rightarrow>
     (case (if strip current_ocr_text = strip (ocr_text capture)
            then (let click_x = cap_x capture + cap_width capture div 2;
                      click_y = cap_y capture + cap_height capture div 2;
                      s1 = s0\<lparr>status_label := SingleClicking (ocr_text capture)\<rparr>
                  in case call_moveTo h (click_x, click_y) s1 of
                       (Some e, s2) \<Rightarrow> (Some e, s2)
                     | (None, s2) \<Rightarrow> call_click h s2)
            else (None, s0\<lparr>status_label := Skipped (ocr_text capture) current_ocr_text\<rparr>)) of
        (Some e, s3) \<Rightarrow> (Some e, s3)
      | (None, s3) \<Rightarrow>
     (case call_moveTo h original s3 of
        (Some e, s4) \<Rightarrow> (Some e, s4)
      | (None, s4) \<Rightarrow> (None, s4\<lparr>status_label := SingleCompleted\<rparr>))))))"

definition execute_single_click ::
  "('img, 'f, 'w) host \<Rightarrow> int \<Rightarrow> ('img, 'f, 'w) system \<Rightarrow>
   exn option \<times> ('img, 'f, 'w) system" where
  "execute_single_click h current_row s =
     (if current_row < 0 \<or> current_row \<ge> int (length (captures s))
      then (None, s\<lparr>dialogs := dialogs s @ [SelectNotice]\<rparr>)
      else (case try_single_click h (captures s ! nat current_row) s of
              (Some e, s') \<Rightarrow>
                (None, s'\<lparr>status_label := SingleError e,
                          dialogs := dialogs s' @ [ExecWarning e]\<rparr>)
            | (None, s') \<Rightarrow> (None, s')))"

section \<open>The continuous runner\<close>

text \<open>\<open>QThread.isRunning\<close>: true from \<open>start()\<close> until \<open>run\<close> has returned.\<close>

definition is_running :: "worker \<Rightarrow> bool" where
  "is_running t \<longleftrightarrow> progress t \<noteq> Finished"

definition set_progress ::
  "nat \<Rightarrow> progress \<Rightarrow> ('img, 'f, 'w) system \<Rightarrow> ('img, 'f, 'w) system" where
  "set_progress i p s = s\<lparr>threads := (threads s)[i := (threads s ! i)\<lparr>progress := p\<rparr>]\<rparr>"

text \<open>
  One step of \<open>WorkerThread.run\<close> for the thread \<open>i\<close>:
  \<^verbatim>\<open>while self.keep_running: execute_all_clicks(infinite_mode=True); time.sleep(1)\<close>.
  At the loop's test the thread returns when the flag is down, and otherwise enters
  the batch by recording the pointer position. Inside the batch a step processes the
  next region, or moves the pointer back when none is left; as Python's list iterator
  does, it looks the next region up in the store as the store is at that moment. The
  batch is the one of \<open>execute_all_clicks\<close> in continuous mode: its exceptions end it
  silently. The flag is read at the loop's test only.
\<close>

definition worker_step ::
  "('img, 'f, 'w) host \<Rightarrow> nat \<Rightarrow> ('img, 'f, 'w) system \<Rightarrow> ('img, 'f, 'w) system" where
  "worker_step h i s =
     (if i < length (threads s) then
        (case progress (threads s ! i) of
           LoopHead \<Rightarrow>
             (if keep_running (threads s ! i)
              then (case position h (desktop s) of
                      Inl e \<Rightarrow> set_progress i Sleeping s
                    | Inr original \<Rightarrow> set_progress i (InBatch original 0) s)
              else set_progress i Finished s)
         | InBatch original k \<Rightarrow>
             (if k < length (captures s)
              then (case process_capture h True (captures s ! k) s of
                      (Some e, s') \<Rightarrow> set_progress i Sleeping s'
                    | (None, s') \<Rightarrow> set_progress i (InBatch original (Suc k)) s')
              else set_progress i Sleeping (snd (call_moveTo h original s)))
         | Sleeping \<Rightarrow> set_progress i LoopHead s
         | Finished \<Rightarrow> s)
      else s)"

text \<open>
  \<open>QThread.wait()\<close> blocks its caller until \<open>run\<close> has returned: meanwhile only the
  thread waited for takes steps. It does not return while the thread keeps running.
\<close>

partial_function (option) wait ::
  "('img, 'f, 'w) host \<Rightarrow> nat \<Rightarrow> ('img, 'f, 'w) system \<Rightarrow> ('img, 'f, 'w) system option" where
  "wait h i s =
     (if i < length (threads s) \<and> is_running (threads s ! i)
      then wait h i (worker_step h i s)
      else Some s)"

text \<open>
  The test \<open>self.worker_thread and self.worker_thread.isRunning()\<close> that both
  \<open>start_infinite_execution\<close> and \<open>stop_infinite_execution\<close> begin with: the runner is
  Running when it holds, Idle otherwise.
\<close>

definition runner_running :: "('img, 'f, 'w) system \<Rightarrow> bool" where
  "runner_running s \<longleftrightarrow>
     (case worker_thread s of
        None \<Rightarrow> False
      | Some i \<Rightarrow> i < length (threads s) \<and> is_running (threads s ! i))"

text \<open>
  \<open>MainWindow.start_infinite_execution\<close>: the notice when the runner is Running;
  otherwise the start dialog, a new thread started at its loop's test, the event
  filter and the status text.
\<close>

definition start_infinite_execution :: "('img, 'f, 'w) system \<Rightarrow> ('img, 'f, 'w) system" where
  "start_infinite_execution s =
     (if runner_running s
      then s\<lparr>dialogs := dialogs s @ [AlreadyRunning]\<rparr>
      else s\<lparr>dialogs := dialogs s @ [StartNotice],
             threads := threads s @ [\<lparr>keep_running = True, progress = LoopHead\<rparr>],
             worker_thread := Some (length (threads s)),
             event_filter := True,
             status_label := RunnerStarted\<rparr>)"

text \<open>
  \<open>MainWindow.stop_infinite_execution\<close>: when the runner is Running, the flag is taken
  down (\<open>WorkerThread.stop\<close>), the thread is waited for and the reference is dropped;
  in either case the event filter is removed and the status text set. \<open>quit()\<close> has no
  effect on a thread that runs no event loop. The result is \<open>None\<close> when \<open>wait\<close> does
  not return.
\<close>

definition stop_infinite_execution ::
  "('img, 'f, 'w) host \<Rightarrow> ('img, 'f, 'w) system \<Rightarrow> ('img, 'f, 'w) system option" where
  "stop_infinite_execution h s =
     (case (case worker_thread s of
              None \<Rightarrow> Some s
            | Some i \<Rightarrow>
                if i < length (threads s) \<and> is_running (threads s ! i)
                then (let s1 = s\<lparr>threads :=
                                   (threads s)[i := (threads s ! i)\<lparr>keep_running := False\<rparr>]\<rparr>
                      in case wait h i s1 of
                           None \<Rightarrow> None
                         | Some s2 \<Rightarrow> Some (s2\<lparr>worker_thread := None\<rparr>))
                else Some s) of
        None \<Rightarrow> None
      | Some s3 \<Rightarrow> Some (s3\<lparr>event_filter := False, status_label := RunnerStopped\<rparr>))"

text \<open>
  The states the program can be in: the one after startup, and those reached from it
  by the user's actions and by steps of the worker threads, in any order.
\<close>

inductive reachable :: "('img, 'f, 'w) host \<Rightarrow> ('img, 'f, 'w) system \<Rightarrow> bool"
  for h :: "('img, 'f, 'w) host" where
  at_startup: "reachable h (snd (startup h file w))"
| after_start: "reachable h s \<Longrightarrow> reachable h (start_infinite_execution s)"
| after_stop: "reachable h s \<Longrightarrow> stop_infinite_execution h s = Some s' \<Longrightarrow> reachable h s'"
| after_step: "reachable h s \<Longrightarrow> reachable h (worker_step h i s)"
| after_batch: "reachable h s \<Longrightarrow> reachable h (snd (execute_all_clicks h False s))"
| after_single: "reachable h s \<Longrightarrow> reachable h (snd (execute_single_click h row s))"
| after_delete: "reachable h s \<Longrightarrow> reachable h (snd (delete_capture h row s))"
| after_cycle: "reachable h s \<Longrightarrow> reachable h (snd (set_click_count h row s))"

section \<open>Notions used in the statements\<close>

text \<open>
  What the executor leaves alone: the store, the rows of the list widget, the persisted
  file and the worker threads.
\<close>

definition same_store :: "('img, 'f, 'w) system \<Rightarrow> ('img, 'f, 'w) system \<Rightarrow> bool" where
  "same_store s s' \<longleftrightarrow>
     captures s' = captures s \<and> capture_list s' = capture_list s \<and>
     json_file s' = json_file s \<and> threads s' = threads s \<and>
     worker_thread s' = worker_thread s \<and> event_filter s' = event_filter s"

text \<open>
  The invariant behind the single loop: a thread that is running is the one the window
  refers to.
\<close>

definition one_loop :: "('img, 'f, 'w) system \<Rightarrow> bool" where
  "one_loop s \<longleftrightarrow>
     (\<forall>i < length (threads s). is_running (threads s ! i) \<longrightarrow> worker_thread s = Some i)"

text \<open>
  The cycle as the specification words it: 1 to 2 to 3 to 5 to 10 and back to 1.
\<close>

definition cycle_successor :: "int \<Rightarrow> int" where
  "cycle_successor n =
     (if n = 1 then 2 else if n = 2 then 3 else if n = 3 then 5 else if n = 5 then 10 else 1)"

section \<open>Sample inputs\<close>

text \<open>
  A host on which every call succeeds: the pointer rests at (7, 7), the recogniser reads
  \<open>shown\<close> from every capture, an image is its own PNG bytes, and the file can be
  written and holds the parsed records. The desktop counts the pointer actions performed
  on it.
\<close>

definition sample_host :: "pystr \<Rightarrow> (bytes, saved_dict list, nat) host" where
  "sample_host shown =
     \<lparr>position = (\<lambda>w. Inr (7, 7)),
      screenshot = (\<lambda>w r. Inr []),
      moveTo = (\<lambda>w p. Inr (Suc w)),
      click = (\<lambda>w. Inr (Suc w)),
      classification = (\<lambda>b. Inr shown),
      save_png = (\<lambda>i. i),
      loadFromData = (\<lambda>b. b),
      b64encode = map unat,
      b64decode = (\<lambda>t. Inr (map of_nat t)),
      open_write = (\<lambda>f. None),
      json_dump = Inr,
      json_load = Inr\<rparr>"

text \<open>
  The sample host with a \<open>json.dump\<close> that raises after writing nothing, as the file's
  encoding does on a text it cannot encode.
\<close>

definition unwritable_host :: "pystr \<Rightarrow> (bytes, saved_dict list, nat) host" where
  "unwritable_host shown =
     (sample_host shown)\<lparr>json_dump := (\<lambda>d. Inl (Raised ''UnicodeEncodeError'', []))\<rparr>"

text \<open>
  A store of three regions, showing "A", "B" and "C", in a window that has just been
  created, with no file yet.
\<close>

definition sample_store3 :: "(bytes, saved_dict list, nat) system" where
  "sample_store3 =
     (init_window None 0)
       \<lparr>captures := [CaptureInfo 0 0 10 10 [1] [65], CaptureInfo 20 0 10 10 [2] [66],
                    CaptureInfo 40 0 10 10 [3] [67]],
        capture_list := [([65], 1), ([66], 1), ([67], 1)]\<rparr>"

text \<open>
  A store of one region, the rectangle (10, 10, 50, 20) showing "Go", with click count
  \<open>n\<close>, in a window that has just been created.
\<close>

definition sample_store :: "int \<Rightarrow> (bytes, saved_dict list, nat) system" where
  "sample_store n =
     (init_window None 0)
       \<lparr>captures := [(CaptureInfo 10 10 50 20 [1, 2] [71, 111])\<lparr>click_count := n\<rparr>],
        capture_list := [([71, 111], n)]\<rparr>"

text \<open>A well-formed record of the persisted file.\<close>

definition good_record :: saved_dict where
  "good_record =
     \<lparr>d_x = Some 10, d_y = Some 10, d_width = Some 50, d_height = Some 20,
      d_ocr_text = Some [71, 111], d_click_count = Some 2, d_encoded_image = Some [1, 2]\<rparr>"


text \<open>
  A state in which the runner is Running, its thread in the middle of a batch over the
  sample store with the pointer position (7, 7) recorded and the one region still to
  process.
\<close>

definition sample_running :: "(bytes, saved_dict list, nat) system" where
  "sample_running =
     (sample_store 2)
       \<lparr>threads := [\<lparr>keep_running = True,
                      progress = InBatch (7, 7) 0\<rparr>],
        worker_thread := Some 0, event_filter := True, status_label := RunnerStarted\<rparr>"

section \<open>The click count cycle\<close>

lemma next_click_count_presets:
  "next_click_count 1 = 2" "next_click_count 2 = 3" "next_click_count 3 = 5"
  "next_click_count 5 = 10" "next_click_count 10 = 1"
  by (simp_all add: next_click_count_def counts_def)

lemma next_click_count_other:
  "n \<notin> {1, 2, 3, 5, 10} \<Longrightarrow> next_click_count n = 2"
  by (simp add: next_click_count_def counts_def)

lemma set_click_count_in_range:
  "0 \<le> row \<Longrightarrow> nat row < length (captures s) \<Longrightarrow>
   set_click_count h row s =
     (fst (write_json h (map (to_dict h) ((captures s)[nat row := (captures s ! nat row)
             \<lparr>click_count := next_click_count (click_count (captures s ! nat row))\<rparr>]))
             (json_file s)),
      s\<lparr>captures := (captures s)[nat row := (captures s ! nat row)
                    \<lparr>click_count := next_click_count (click_count (captures s ! nat row))\<rparr>],
        capture_list := (capture_list s)[nat row := str_capture ((captures s ! nat row)
                    \<lparr>click_count := next_click_count (click_count (captures s ! nat row))\<rparr>)],
        json_file := snd (write_json h (map (to_dict h) ((captures s)[nat row := (captures s ! nat row)
             \<lparr>click_count := next_click_count (click_count (captures s ! nat row))\<rparr>]))
             (json_file s))\<rparr>)"
  by (simp add: set_click_count_def save_captures_to_json_def Let_def)

lemma write_json_written:
  "open_write h file = None \<Longrightarrow> json_dump h data = Inr content \<Longrightarrow>
   write_json h data file = (None, Some content)"
  by (simp add: write_json_def)

lemma next_click_count_is_successor:
  "n \<in> {1, 2, 3, 5, 10} \<Longrightarrow> next_click_count n = cycle_successor n"
  by (auto simp: next_click_count_def counts_def cycle_successor_def)

lemma next_click_count_closed:
  "n \<in> {1, 2, 3, 5, 10} \<Longrightarrow> next_click_count n \<in> {1, 2, 3, 5, 10}"
  by (auto simp: next_click_count_def counts_def)

lemma next_click_count_bij: "bij_betw next_click_count {1, 2, 3, 5, 10} {1, 2, 3, 5, 10}"
  unfolding bij_betw_def inj_on_def
  by (auto simp: next_click_count_presets image_def)

lemma next_click_count_five:
  "n \<in> {1, 2, 3, 5, 10} \<Longrightarrow> (next_click_count ^^ 5) n = n"
  by (auto simp: numeral_eq_Suc next_click_count_presets)

lemma captures_set_click_count:
  "0 \<le> row \<Longrightarrow> nat row < length (captures s) \<Longrightarrow>
   captures (snd (set_click_count h row s)) =
     (captures s)[nat row := (captures s ! nat row)
        \<lparr>click_count := next_click_count (click_count (captures s ! nat row))\<rparr>]"
  by (simp add: set_click_count_in_range)

lemma captures_set_click_count_funpow:
  "0 \<le> row \<Longrightarrow> nat row < length (captures s) \<Longrightarrow>
   captures (((\<lambda>t. snd (set_click_count h row t)) ^^ k) s) =
     (captures s)[nat row := (captures s ! nat row)
        \<lparr>click_count := (next_click_count ^^ k) (click_count (captures s ! nat row))\<rparr>]"
proof (induction k)
  case 0
  then show ?case by simp
next
  case (Suc k)
  let ?t = "((\<lambda>t. snd (set_click_count h row t)) ^^ k) s"
  have len: "nat row < length (captures ?t)" using Suc by simp
  show ?case
    using Suc len by (simp add: captures_set_click_count)
qed

text \<open>
  Claim C4. On a region whose click count is one of 1, 2, 3, 5, 10, \<open>set_click_count\<close>
  moves the count to its successor in the cycle 1, 2, 3, 5, 10, 1 and changes nothing
  else in the store; the step is a bijection on the five presets, and five applications
  give back the store they started from. This holds whether or not the file can be
  written: the only exception the operation can raise is that of the write.
\<close>

theorem cycle_click_count_on_presets:
  assumes "0 \<le> row" and "nat row < length (captures s)"
    and "click_count (captures s ! nat row) \<in> {1, 2, 3, 5, 10}"
  shows "fst (set_click_count h row s) =
           fst (write_json h (map (to_dict h) (captures (snd (set_click_count h row s))))
                  (json_file s)) \<and>
         captures (snd (set_click_count h row s)) =
           (captures s)[nat row := (captures s ! nat row)
              \<lparr>click_count := cycle_successor (click_count (captures s ! nat row))\<rparr>] \<and>
         bij_betw next_click_count {1, 2, 3, 5, 10} {1, 2, 3, 5, 10} \<and>
         captures (((\<lambda>t. snd (set_click_count h row t)) ^^ 5) s) = captures s"
proof -
  have "captures (((\<lambda>t. snd (set_click_count h row t)) ^^ 5) s) =
        (captures s)[nat row := (captures s ! nat row)
           \<lparr>click_count := click_count (captures s ! nat row)\<rparr>]"
    using assms by (simp only: captures_set_click_count_funpow next_click_count_five)
  then have "captures (((\<lambda>t. snd (set_click_count h row t)) ^^ 5) s) = captures s"
    by simp
  then show ?thesis
    using assms
    by (simp add: set_click_count_in_range next_click_count_is_successor next_click_count_bij)
qed

theorem cycle_click_count_on_presets_witness:
  "fst (set_click_count (sample_host []) 0 (sample_store 5)) = None \<and>
   map click_count (captures (snd (set_click_count (sample_host []) 0 (sample_store 5)))) = [10] \<and>
   captures (((\<lambda>t. snd (set_click_count (sample_host []) 0 t)) ^^ 5) (sample_store 5)) =
     captures (sample_store 5) \<and>
   fst (set_click_count (unwritable_host []) 0 (sample_store 5)) =
     Some (Raised ''UnicodeEncodeError'') \<and>
   map click_count (captures (snd (set_click_count (unwritable_host []) 0 (sample_store 5)))) =
     [10]"
  using cycle_click_count_on_presets [of 0 "sample_store 5" "sample_host []"]
    cycle_click_count_on_presets [of 0 "sample_store 5" "unwritable_host []"]
  by (simp add: sample_store_def init_window_def CaptureInfo_def cycle_successor_def
      write_json_def sample_host_def unwritable_host_def)

text \<open>
  Claim C10. On a region whose click count is none of the presets, \<open>set_click_count\<close>
  sets the count to 2: the position defaults to that of the first preset and is then
  advanced. This holds whether or not the file can be written: the only exception the
  operation can raise is that of the write.
\<close>

theorem cycle_click_count_off_presets:
  assumes "0 \<le> row" and "nat row < length (captures s)"
    and "click_count (captures s ! nat row) \<notin> {1, 2, 3, 5, 10}"
  shows "fst (set_click_count h row s) =
           fst (write_json h (map (to_dict h) (captures (snd (set_click_count h row s))))
                  (json_file s)) \<and>
         captures (snd (set_click_count h row s)) =
           (captures s)[nat row := (captures s ! nat row)\<lparr>click_count := 2\<rparr>]"
  using assms by (simp add: set_click_count_in_range next_click_count_other)

theorem cycle_click_count_off_presets_witness:
  "fst (set_click_count (sample_host []) 0 (sample_store 4)) = None \<and>
   map click_count (captures (snd (set_click_count (sample_host []) 0 (sample_store 4)))) = [2] \<and>
   fst (set_click_count (unwritable_host []) 0 (sample_store 4)) =
     Some (Raised ''UnicodeEncodeError'') \<and>
   map click_count (captures (snd (set_click_count (unwritable_host []) 0 (sample_store 4)))) =
     [2]"
  using cycle_click_count_off_presets [of 0 "sample_store 4" "sample_host []"]
    cycle_click_count_off_presets [of 0 "sample_store 4" "unwritable_host []"]
  by (simp add: sample_store_def init_window_def CaptureInfo_def
      write_json_def sample_host_def unwritable_host_def)

section \<open>Serialisation round trip\<close>


lemma load_items_append:
  "list_all2 (\<lambda>d c. from_dict h d = Inr c) pre caps \<Longrightarrow>
   load_items h (pre @ rest) s =
     load_items h rest
       (s\<lparr>captures := captures s @ caps,
          capture_list := capture_list s @ map str_capture caps\<rparr>)"
proof (induction pre caps arbitrary: s rule: list_all2_induct)
  case Nil
  then show ?case by simp
next
  case (Cons d ds c cs)
  show ?case
    using Cons.hyps(1) by (simp add: Cons.IH)
qed


text \<open>
  Claim C9. A persisted record without the key \<open>click_count\<close>, all other keys present
  and the image text decodable, deserialises to a region with click count 1 whose other
  fields are the record's.
\<close>

theorem from_dict_default_click_count:
  assumes "d_click_count data = None"
    and "d_encoded_image data = Some enc" and "b64decode h enc = Inr raw"
    and "d_x data = Some vx" and "d_y data = Some vy"
    and "d_width data = Some vw" and "d_height data = Some vh"
    and "d_ocr_text data = Some vt"
  shows "from_dict h data =
           Inr \<lparr>cap_x = vx, cap_y = vy, cap_width = vw, cap_height = vh,
                cap_image = loadFromData h raw, ocr_text = vt, click_count = 1\<rparr>"
  using assms by (simp add: from_dict_def getitem_def CaptureInfo_def)

theorem from_dict_default_click_count_witness:
  "from_dict (sample_host []) (good_record\<lparr>d_click_count := None\<rparr>) =
     Inr \<lparr>cap_x = 10, cap_y = 10, cap_width = 50, cap_height = 20,
          cap_image = [1, 2], ocr_text = [71, 111], click_count = 1\<rparr>"
  using from_dict_default_click_count
          [of "good_record\<lparr>d_click_count := None\<rparr>" "[1, 2]" "sample_host []" "[1, 2]"
              10 10 50 20 "[71, 111]"]
  by (simp add: good_record_def sample_host_def)






section \<open>Deleting a region\<close>

lemma delete_capture_negative:
  "current_row < 0 \<Longrightarrow> delete_capture h current_row s = (None, s)"
  by (simp add: delete_capture_def)

lemma delete_capture_beyond:
  "int (length (captures s)) \<le> current_row \<Longrightarrow>
   delete_capture h current_row s =
     (Some IndexError, s\<lparr>capture_list := takeItem (capture_list s) (nat current_row)\<rparr>)"
proof -
  assume "int (length (captures s)) \<le> current_row"
  then have "0 \<le> current_row" and "\<not> nat current_row < length (captures s)"
    by linarith+
  then show ?thesis
    by (simp add: delete_capture_def Let_def)
qed

lemma delete_capture_in_range:
  "0 \<le> current_row \<Longrightarrow> current_row < int (length (captures s)) \<Longrightarrow>
   delete_capture h current_row s =
     (fst (write_json h (map (to_dict h)
             (take (nat current_row) (captures s) @
              drop (Suc (nat current_row)) (captures s))) (json_file s)),
      s\<lparr>capture_list := takeItem (capture_list s) (nat current_row),
        captures := take (nat current_row) (captures s) @
                    drop (Suc (nat current_row)) (captures s),
        json_file := snd (write_json h (map (to_dict h)
             (take (nat current_row) (captures s) @
              drop (Suc (nat current_row)) (captures s))) (json_file s))\<rparr>)"
proof -
  assume "0 \<le> current_row" and "current_row < int (length (captures s))"
  then have "nat current_row < length (captures s)"
    by linarith
  with \<open>0 \<le> current_row\<close> show ?thesis
    by (simp add: delete_capture_def Let_def save_captures_to_json_def)
qed

text \<open>
  Claim C5, as stated, fails: with no row selected (\<open>currentRow()\<close> is -1, outside the
  range of a store of one region) \<open>delete_capture\<close> raises nothing; it returns with the
  state untouched.
\<close>

theorem delete_capture_negative_counterexample:
  "(-1 :: int) < 0 \<and>
   delete_capture (sample_host []) (-1) (sample_store 1) = (None, sample_store 1)"
  by (simp add: delete_capture_def)

text \<open>
  Claim C5, amended. A negative row is ignored without any error and leaves the whole
  state as it was. A row at or beyond the length of the store raises \<open>IndexError\<close> and
  leaves the store and the persisted file as they were. A row inside the store removes
  exactly that region from the store and keeps the others in order, whatever becomes of
  the write that follows; the outcome and the file are those of writing the resulting
  store, so when opening and writing the file raise nothing the file holds the resulting
  store, and otherwise the exception of the write escapes.
\<close>

theorem delete_capture_cases:
  "(current_row < 0 \<longrightarrow> delete_capture h current_row s = (None, s)) \<and>
   (int (length (captures s)) \<le> current_row \<longrightarrow>
      fst (delete_capture h current_row s) = Some IndexError \<and>
      captures (snd (delete_capture h current_row s)) = captures s \<and>
      json_file (snd (delete_capture h current_row s)) = json_file s) \<and>
   (0 \<le> current_row \<and> current_row < int (length (captures s)) \<longrightarrow>
      captures (snd (delete_capture h current_row s)) =
        take (nat current_row) (captures s) @ drop (Suc (nat current_row)) (captures s) \<and>
      (fst (delete_capture h current_row s), json_file (snd (delete_capture h current_row s))) =
        write_json h (map (to_dict h) (captures (snd (delete_capture h current_row s))))
          (json_file s) \<and>
      (\<forall>content.
         open_write h (json_file s) = None \<and>
         json_dump h (map (to_dict h) (captures (snd (delete_capture h current_row s)))) =
           Inr content \<longrightarrow>
         fst (delete_capture h current_row s) = None \<and>
         json_file (snd (delete_capture h current_row s)) = Some content))"
proof (intro conjI impI allI)
  assume "current_row < 0"
  then show "delete_capture h current_row s = (None, s)"
    by (rule delete_capture_negative)
next
  assume a: "int (length (captures s)) \<le> current_row"
  show "fst (delete_capture h current_row s) = Some IndexError"
    and "captures (snd (delete_capture h current_row s)) = captures s"
    and "json_file (snd (delete_capture h current_row s)) = json_file s"
    using a by (simp_all add: delete_capture_beyond)
next
  assume a: "0 \<le> current_row \<and> current_row < int (length (captures s))"
  show caps: "captures (snd (delete_capture h current_row s)) =
      take (nat current_row) (captures s) @ drop (Suc (nat current_row)) (captures s)"
    using a by (simp add: delete_capture_in_range)
  show written: "(fst (delete_capture h current_row s),
       json_file (snd (delete_capture h current_row s))) =
      write_json h (map (to_dict h) (captures (snd (delete_capture h current_row s))))
        (json_file s)"
    using a by (simp add: delete_capture_in_range)
  fix content
  assume "open_write h (json_file s) = None \<and>
          json_dump h (map (to_dict h) (captures (snd (delete_capture h current_row s)))) =
            Inr content"
  then have "write_json h (map (to_dict h) (captures (snd (delete_capture h current_row s))))
               (json_file s) = (None, Some content)"
    by (simp add: write_json_written)
  with written show "fst (delete_capture h current_row s) = None"
    and "json_file (snd (delete_capture h current_row s)) = Some content"
    by simp_all
qed

theorem delete_capture_cases_witness:
  "delete_capture (sample_host []) (-1) sample_store3 = (None, sample_store3) \<and>
   fst (delete_capture (sample_host []) 3 sample_store3) = Some IndexError \<and>
   captures (snd (delete_capture (sample_host []) 3 sample_store3)) = captures sample_store3 \<and>
   json_file (snd (delete_capture (sample_host []) 3 sample_store3)) = None \<and>
   fst (delete_capture (sample_host []) 1 sample_store3) = None \<and>
   captures (snd (delete_capture (sample_host []) 1 sample_store3)) =
     [CaptureInfo 0 0 10 10 [1] [65], CaptureInfo 40 0 10 10 [3] [67]] \<and>
   json_file (snd (delete_capture (sample_host []) 1 sample_store3)) =
     Some (map (to_dict (sample_host []))
             [CaptureInfo 0 0 10 10 [1] [65], CaptureInfo 40 0 10 10 [3] [67]]) \<and>
   fst (delete_capture (unwritable_host []) 1 sample_store3) =
     Some (Raised ''UnicodeEncodeError'') \<and>
   captures (snd (delete_capture (unwritable_host []) 1 sample_store3)) =
     [CaptureInfo 0 0 10 10 [1] [65], CaptureInfo 40 0 10 10 [3] [67]] \<and>
   json_file (snd (delete_capture (unwritable_host []) 1 sample_store3)) = Some []"
proof -
  let ?h = "sample_host [] :: (bytes, saved_dict list, nat) host"
  let ?u = "unwritable_host [] :: (bytes, saved_dict list, nat) host"
  let ?s = "sample_store3"
  let ?rest = "[CaptureInfo 0 0 10 10 [1] [65], CaptureInfo 40 0 10 10 [3] [67]]
                 :: bytes capture_info list"
  have len: "length (captures ?s) = 3" and nofile: "json_file ?s = None"
    and rest: "take (Suc 0) (captures ?s) @ drop (Suc (Suc 0)) (captures ?s) = ?rest"
    by (simp_all add: sample_store3_def init_window_def)
  have a: "delete_capture ?h (-1) ?s = (None, ?s)"
    using delete_capture_cases [of "-1" ?h ?s] by simp
  have b: "fst (delete_capture ?h 3 ?s) = Some IndexError \<and>
           captures (snd (delete_capture ?h 3 ?s)) = captures ?s \<and>
           json_file (snd (delete_capture ?h 3 ?s)) = None"
    using delete_capture_cases [of 3 ?h ?s] by (simp add: len nofile)
  have c1: "captures (snd (delete_capture ?h 1 ?s)) = ?rest"
    using delete_capture_cases [of 1 ?h ?s] by (simp add: len rest)
  have c2: "fst (delete_capture ?h 1 ?s) = None \<and>
            json_file (snd (delete_capture ?h 1 ?s)) = Some (map (to_dict ?h) ?rest)"
  proof -
    have "open_write ?h (json_file ?s) = None \<and>
          json_dump ?h (map (to_dict ?h) (captures (snd (delete_capture ?h 1 ?s)))) =
            Inr (map (to_dict ?h) ?rest)"
      by (simp add: c1) (simp add: sample_host_def)
    then show ?thesis
      by (rule delete_capture_cases [of 1 ?h ?s, THEN conjunct2, THEN conjunct2, rule_format,
            THEN conjunct2, THEN conjunct2, rule_format, rotated])
        (simp add: len)
  qed
  have d1: "captures (snd (delete_capture ?u 1 ?s)) = ?rest"
    using delete_capture_cases [of 1 ?u ?s] by (simp add: len rest)
  have d2: "(fst (delete_capture ?u 1 ?s), json_file (snd (delete_capture ?u 1 ?s))) =
      (Some (Raised ''UnicodeEncodeError''), Some [])"
  proof -
    have "(fst (delete_capture ?u 1 ?s), json_file (snd (delete_capture ?u 1 ?s))) =
        write_json ?u (map (to_dict ?u) (captures (snd (delete_capture ?u 1 ?s)))) (json_file ?s)"
      by (rule delete_capture_cases [of 1 ?u ?s, THEN conjunct2, THEN conjunct2, rule_format,
            THEN conjunct2, THEN conjunct1])
        (simp add: len)
    then show ?thesis
      by (simp add: write_json_def unwritable_host_def sample_host_def)
  qed
  show ?thesis
    using a b c1 c2 d1 d2 by simp
qed

section \<open>Loading the persisted file at startup\<close>

lemma load_items_stops:
  assumes "list_all2 (\<lambda>d c. from_dict h d = Inr c) pre caps"
    and "from_dict h bad = Inl e"
  shows "load_items h (pre @ bad # post) s =
           (Some e, s\<lparr>captures := captures s @ caps,
                       capture_list := capture_list s @ map str_capture caps\<rparr>)"
  using assms by (simp add: load_items_append)

lemma load_items_all:
  assumes "list_all2 (\<lambda>d c. from_dict h d = Inr c) ds caps"
  shows "load_items h ds s =
           (None, s\<lparr>captures := captures s @ caps,
                     capture_list := capture_list s @ map str_capture caps\<rparr>)"
  using load_items_append [OF assms, of "[]" s] by simp

lemma load_never_raises: "fst (load_captures_from_json h s) = None"
proof (cases "json_file s")
  case None
  then show ?thesis by (simp add: load_captures_from_json_def)
next
  case (Some f)
  obtain r t where body:
    "(case json_load h f of
        Inl e \<Rightarrow> (Some e, s)
      | Inr data_list \<Rightarrow> load_items h data_list (s\<lparr>captures := [], capture_list := []\<rparr>)) =
     (r, t)"
    by (cases "case json_load h f of
        Inl e \<Rightarrow> (Some e, s)
      | Inr data_list \<Rightarrow> load_items h data_list (s\<lparr>captures := [], capture_list := []\<rparr>)")
  show ?thesis
    using Some body by (cases r) (simp_all add: load_captures_from_json_def)
qed

text \<open>
  Claim C6, as stated, fails twice: a missing file raises no warning at all, and a file
  whose second record lacks the key \<open>x\<close> leaves the first record's region in the store
  instead of an empty store.
\<close>

theorem startup_load_counterexample:
  "dialogs (snd (startup (sample_host []) None 0)) = [] \<and>
   captures (snd (startup (sample_host [])
                    (Some [good_record, good_record\<lparr>d_x := None\<rparr>]) 0)) =
     [\<lparr>cap_x = 10, cap_y = 10, cap_width = 50, cap_height = 20,
       cap_image = [1, 2], ocr_text = [71, 111], click_count = 2\<rparr>]"
  by (simp add: startup_def load_captures_from_json_def init_window_def sample_host_def
      from_dict_def getitem_def good_record_def CaptureInfo_def)

text \<open>
  Claim C6, amended. Startup never fails. With the file missing the store is empty and
  no warning is shown. With a file that json cannot parse the store is empty and one
  warning is shown. With a parsed file whose records are well-formed up to a malformed
  one, one warning is shown and the store holds the regions of the records before it
  (none when the first record is the malformed one).
\<close>

theorem startup_load_degrades:
  "fst (startup h file w) = None \<and>
   (file = None \<longrightarrow> snd (startup h file w) = init_window None w) \<and>
   (\<forall>f e. file = Some f \<and> json_load h f = Inl e \<longrightarrow>
      snd (startup h file w) = (init_window file w)\<lparr>dialogs := [LoadWarning e]\<rparr>) \<and>
   (\<forall>f pre bad post caps e.
      file = Some f \<and> json_load h f = Inr (pre @ bad # post) \<and>
      list_all2 (\<lambda>d c. from_dict h d = Inr c) pre caps \<and> from_dict h bad = Inl e \<longrightarrow>
      captures (snd (startup h file w)) = caps \<and>
      dialogs (snd (startup h file w)) = [LoadWarning e])"
proof (intro conjI allI impI)
  show "fst (startup h file w) = None"
    by (simp add: startup_def load_never_raises)
next
  assume "file = None"
  then show "snd (startup h file w) = init_window None w"
    by (simp add: startup_def load_captures_from_json_def init_window_def)
next
  fix f e
  assume "file = Some f \<and> json_load h f = Inl e"
  then show "snd (startup h file w) = (init_window file w)\<lparr>dialogs := [LoadWarning e]\<rparr>"
    by (simp add: startup_def load_captures_from_json_def init_window_def)
next
  fix f pre bad post caps e
  assume a: "file = Some f \<and> json_load h f = Inr (pre @ bad # post) \<and>
             list_all2 (\<lambda>d c. from_dict h d = Inr c) pre caps \<and> from_dict h bad = Inl e"
  then have "load_items h (pre @ bad # post) t =
               (Some e, t\<lparr>captures := captures t @ caps,
                           capture_list := capture_list t @ map str_capture caps\<rparr>)" for t
    by (simp add: load_items_stops)
  with a show "captures (snd (startup h file w)) = caps"
    by (simp add: startup_def load_captures_from_json_def init_window_def)
  from a \<open>\<And>t. load_items h (pre @ bad # post) t = _\<close>
  show "dialogs (snd (startup h file w)) = [LoadWarning e]"
    by (simp add: startup_def load_captures_from_json_def init_window_def)
qed

theorem startup_load_degrades_witness:
  "snd (startup (sample_host []) None 0) = init_window None 0 \<and>
   snd (startup ((sample_host [])\<lparr>json_load := (\<lambda>f. Inl (Raised ''JSONDecodeError''))\<rparr>)
          (Some []) 0) =
     (init_window (Some []) 0)\<lparr>dialogs := [LoadWarning (Raised ''JSONDecodeError'')]\<rparr> \<and>
   map ocr_text (captures (snd (startup (sample_host [])
                    (Some [good_record, good_record\<lparr>d_x := None\<rparr>]) 0))) = [[71, 111]] \<and>
   dialogs (snd (startup (sample_host [])
                    (Some [good_record, good_record\<lparr>d_x := None\<rparr>]) 0)) =
     [LoadWarning (KeyError ''x'')]"
proof -
  let ?h = "sample_host [] :: (bytes, saved_dict list, nat) host"
  let ?bad = "good_record\<lparr>d_x := None\<rparr>"
  let ?c = "\<lparr>cap_x = 10, cap_y = 10, cap_width = 50, cap_height = 20,
             cap_image = [1, 2] :: bytes, ocr_text = [71, 111], click_count = 2\<rparr>"
  have good: "from_dict ?h good_record = Inr ?c"
    by (simp add: from_dict_def getitem_def good_record_def sample_host_def CaptureInfo_def)
  have bad: "from_dict ?h ?bad = Inl (KeyError ''x'')"
    by (simp add: from_dict_def getitem_def good_record_def sample_host_def)
  have parsed: "json_load ?h [good_record, ?bad] = Inr ([good_record] @ ?bad # [])"
    by (simp add: sample_host_def)
  have pre: "list_all2 (\<lambda>d c. from_dict ?h d = Inr c) [good_record] [?c]"
    using good by simp
  have a: "snd (startup ?h None 0) = init_window None 0"
    using startup_load_degrades [of ?h None 0] by simp
  have b: "snd (startup (?h\<lparr>json_load := (\<lambda>f. Inl (Raised ''JSONDecodeError''))\<rparr>) (Some []) 0) =
             (init_window (Some []) 0)\<lparr>dialogs := [LoadWarning (Raised ''JSONDecodeError'')]\<rparr>"
    using startup_load_degrades
            [of "?h\<lparr>json_load := (\<lambda>f. Inl (Raised ''JSONDecodeError''))\<rparr>" "Some []" 0]
    by simp
  have c: "captures (snd (startup ?h (Some [good_record, ?bad]) 0)) = [?c] \<and>
           dialogs (snd (startup ?h (Some [good_record, ?bad]) 0)) = [LoadWarning (KeyError ''x'')]"
    by (rule startup_load_degrades [of ?h "Some [good_record, ?bad]" 0,
          THEN conjunct2, THEN conjunct2, THEN conjunct2, rule_format,
          OF conjI [OF refl conjI [OF parsed conjI [OF pre bad]]]])
  show ?thesis using a b c by simp
qed

section \<open>The decision of the executor for one region\<close>










section \<open>A batch that raises\<close>






section \<open>The executor writes nothing to the store\<close>

lemma same_store_refl: "same_store s s"
  by (simp add: same_store_def)

lemma same_store_trans: "same_store s t \<Longrightarrow> same_store t u \<Longrightarrow> same_store s u"
  by (simp add: same_store_def)

lemma same_store_status: "same_store s (s\<lparr>status_label := st\<rparr>)"
  by (simp add: same_store_def)

lemma same_store_call_moveTo: "same_store s (snd (call_moveTo h p s))"
  by (simp add: same_store_def call_moveTo_def Let_def split: sum.splits)

lemma same_store_call_click: "same_store s (snd (call_click h s))"
  by (simp add: same_store_def call_click_def Let_def split: sum.splits)

lemma same_store_click_loop: "same_store s (snd (click_loop h im c p is s))"
proof (induction "is" arbitrary: s)
  case Nil
  then show ?case by (simp add: same_store_refl)
next
  case (Cons i "is")
  let ?s1 = "if \<not> im then s\<lparr>status_label := Clicking (ocr_text c) (i + 1) (click_count c)\<rparr>
             else s"
  obtain r2 s2 where m: "call_moveTo h p ?s1 = (r2, s2)" by (cases "call_moveTo h p ?s1")
  obtain r3 s3 where k: "call_click h s2 = (r3, s3)" by (cases "call_click h s2")
  have a: "same_store s ?s1" by (simp add: same_store_def)
  have b: "same_store ?s1 s2" using same_store_call_moveTo [of ?s1 h p] m by simp
  have c: "same_store s2 s3" using same_store_call_click [of s2 h] k by simp
  have d: "same_store s3 (snd (click_loop h im c p is s3))" by (rule Cons.IH)
  have s2: "same_store s s2" using a b by (rule same_store_trans)
  have s3: "same_store s s3" using s2 c by (rule same_store_trans)
  have s4: "same_store s (snd (click_loop h im c p is s3))" using s3 d by (rule same_store_trans)
  show ?case
    using m k s2 s3 s4 by (cases r2; cases r3) (simp_all add: Let_def)
qed

lemma same_store_process_capture: "same_store s (snd (process_capture h im c s))"
  by (simp add: process_capture_def Let_def same_store_refl same_store_status
      same_store_click_loop split: sum.splits)

lemma same_store_run_captures: "same_store s (snd (run_captures h im cs s))"
proof (induction cs arbitrary: s)
  case Nil
  then show ?case by (simp add: same_store_refl)
next
  case (Cons c cs)
  obtain r t where p: "process_capture h im c s = (r, t)"
    by (cases "process_capture h im c s")
  have a: "same_store s t" using same_store_process_capture [of s h im c] p by simp
  have "same_store t (snd (run_captures h im cs t))" by (rule Cons.IH)
  with a have "same_store s (snd (run_captures h im cs t))" by (rule same_store_trans)
  with a p show ?case by (cases r) simp_all
qed

lemma same_store_finish_batch: "same_store s (snd (finish_batch h im original cs s))"
proof -
  obtain r1 s1 where r: "run_captures h im cs s = (r1, s1)"
    by (cases "run_captures h im cs s")
  obtain r2 s2 where m: "call_moveTo h original s1 = (r2, s2)"
    by (cases "call_moveTo h original s1")
  have a: "same_store s s1" using same_store_run_captures [of s h im cs] r by simp
  have "same_store s1 s2" using same_store_call_moveTo [of s1 h original] m by simp
  with a have b: "same_store s s2" by (rule same_store_trans)
  then have c: "same_store s (s2\<lparr>status_label := Completed\<rparr>)"
    by (simp add: same_store_def)
  show ?thesis
    using r m a b c by (cases r1; cases r2) (simp_all add: finish_batch_def)
qed

lemma same_store_try_all_clicks: "same_store s (snd (try_all_clicks h im s))"
proof (cases im)
  case True
  show ?thesis
  proof (cases "position h (desktop s)")
    case (Inl e)
    with True show ?thesis by (simp add: try_all_clicks_def same_store_refl)
  next
    case (Inr original)
    with True have "try_all_clicks h im s = finish_batch h True original (captures s) s"
      by (simp add: try_all_clicks_def)
    then show ?thesis by (simp add: same_store_finish_batch)
  qed
next
  case False
  let ?s0 = "s\<lparr>status_label := Started\<rparr>"
  have a: "same_store s ?s0" by (rule same_store_status)
  show ?thesis
  proof (cases "position h (desktop s)")
    case (Inl e)
    with False a show ?thesis by (simp add: try_all_clicks_def)
  next
    case (Inr original)
    with False have "try_all_clicks h im s = finish_batch h False original (captures s) ?s0"
      by (simp add: try_all_clicks_def)
    moreover have "same_store s (snd (finish_batch h False original (captures s) ?s0))"
      using a same_store_finish_batch by (rule same_store_trans)
    ultimately show ?thesis by simp
  qed
qed

lemma same_store_execute_all_clicks: "same_store s (snd (execute_all_clicks h im s))"
proof -
  obtain r t where p: "try_all_clicks h im s = (r, t)" by (cases "try_all_clicks h im s")
  have "same_store s t" using same_store_try_all_clicks [of s h im] p by simp
  then show ?thesis
    using p by (cases r) (simp_all add: execute_all_clicks_def same_store_def)
qed

lemma same_store_try_single_click: "same_store s (snd (try_single_click h c s))"
proof -
  let ?s0 = "s\<lparr>status_label := SingleStarted\<rparr>"
  let ?p = "(cap_x c + cap_width c div 2, cap_y c + cap_height c div 2)"
  let ?s1 = "?s0\<lparr>status_label := SingleClicking (ocr_text c)\<rparr>"
  have a: "same_store s ?s0" by (simp add: same_store_def)
  have restore: "same_store s t \<Longrightarrow>
      same_store s (snd (case call_moveTo h original t of
          (None, s4) \<Rightarrow> (None, s4\<lparr>status_label := SingleCompleted\<rparr>)
        | (Some e, s4) \<Rightarrow> (Some e, s4)))" for t original
  proof -
    assume st: "same_store s t"
    obtain r4 s4 where m: "call_moveTo h original t = (r4, s4)"
      by (cases "call_moveTo h original t")
    have "same_store t s4" using same_store_call_moveTo [of t h original] m by simp
    with st have "same_store s s4" by (rule same_store_trans)
    then show ?thesis using m by (cases r4) (simp_all add: same_store_def)
  qed
  have clicked: "same_store s (snd (case call_moveTo h ?p ?s1 of
          (None, s2) \<Rightarrow> call_click h s2 | (Some e, s2) \<Rightarrow> (Some e, s2)))"
  proof -
    obtain r2 s2 where m: "call_moveTo h ?p ?s1 = (r2, s2)" by (cases "call_moveTo h ?p ?s1")
    have "same_store s ?s1" by (simp add: same_store_def)
    moreover have "same_store ?s1 s2" using same_store_call_moveTo [of ?s1 h ?p] m by simp
    ultimately have s2: "same_store s s2" by (rule same_store_trans)
    have "same_store s2 (snd (call_click h s2))" by (rule same_store_call_click)
    with s2 have "same_store s (snd (call_click h s2))" by (rule same_store_trans)
    with s2 m show ?thesis by (cases r2) simp_all
  qed
  have skipped: "same_store s (?s0\<lparr>status_label := Skipped (ocr_text c) cur\<rparr>)" for cur
    by (simp add: same_store_def)
  have step: "same_store s (snd (case rt of
          (None, s3) \<Rightarrow> (case call_moveTo h original s3 of
              (None, s4) \<Rightarrow> (None, s4\<lparr>status_label := SingleCompleted\<rparr>)
            | (Some e, s4) \<Rightarrow> (Some e, s4))
        | (Some e, s3) \<Rightarrow> (Some e, s3)))"
    if "same_store s (snd rt)" for rt :: "exn option \<times> ('a, 'b, 'c) system" and original
    using that restore [of "snd rt" original] by (cases rt; cases "fst rt") simp_all
  show ?thesis
    unfolding try_single_click_def Let_def
    by (simp add: a split: sum.splits)
      (auto intro!: step restore clicked [simplified] skipped [simplified])
qed

lemma same_store_execute_single_click: "same_store s (snd (execute_single_click h row s))"
proof -
  obtain r t where p: "try_single_click h (captures s ! nat row) s = (r, t)"
    by (cases "try_single_click h (captures s ! nat row) s")
  have "same_store s t" using same_store_try_single_click [of s h "captures s ! nat row"] p by simp
  then show ?thesis
    using p by (cases r) (simp_all add: execute_single_click_def same_store_def)
qed

text \<open>
  Claim C8. No run of the executor, of all regions or of the selected one, in either
  mode, on any host and whatever the live recognition returns or raises, changes the
  store: every region keeps its expected text and reference image (and all its other
  fields), and the persisted file is not written.
\<close>

theorem executor_leaves_store:
  "captures (snd (execute_all_clicks h im s)) = captures s \<and>
   json_file (snd (execute_all_clicks h im s)) = json_file s \<and>
   captures (snd (execute_single_click h row s)) = captures s \<and>
   json_file (snd (execute_single_click h row s)) = json_file s"
  using same_store_execute_all_clicks [of s h im] same_store_execute_single_click [of s h row]
  by (simp add: same_store_def)

theorem executor_leaves_store_witness:
  "captures (snd (execute_all_clicks (sample_host [83, 116, 111, 112]) False (sample_store 2))) =
     captures (sample_store 2) \<and>
   map ocr_text (captures (snd (execute_all_clicks (sample_host [83, 116, 111, 112]) True
     (sample_store 2)))) = [[71, 111]] \<and>
   captures (snd (execute_single_click (sample_host [83, 116, 111, 112]) 0 (sample_store 2))) =
     captures (sample_store 2)"
  using executor_leaves_store [of "sample_host [83, 116, 111, 112]" False "sample_store 2" 0]
    executor_leaves_store [of "sample_host [83, 116, 111, 112]" True "sample_store 2" 0]
  by (simp add: sample_store_def CaptureInfo_def)

section \<open>The runner's state machine\<close>

lemma call_moveTo_threads:
  "call_moveTo h p (s\<lparr>threads := ts\<rparr>) = apsnd (\<lambda>t. t\<lparr>threads := ts\<rparr>) (call_moveTo h p s)"
  by (simp add: call_moveTo_def Let_def split: sum.splits)

lemma call_click_threads:
  "call_click h (s\<lparr>threads := ts\<rparr>) = apsnd (\<lambda>t. t\<lparr>threads := ts\<rparr>) (call_click h s)"
  by (simp add: call_click_def Let_def split: sum.splits)

lemma click_loop_threads:
  "click_loop h im c p is (s\<lparr>threads := ts\<rparr>) =
     apsnd (\<lambda>t. t\<lparr>threads := ts\<rparr>) (click_loop h im c p is s)"
proof (induction "is" arbitrary: s)
  case Nil
  then show ?case by simp
next
  case (Cons i "is")
  show ?case
  proof (cases im)
    case True
    obtain r2 s2 where m: "call_moveTo h p s = (r2, s2)" by (cases "call_moveTo h p s")
    obtain r3 s3 where k: "call_click h s2 = (r3, s3)" by (cases "call_click h s2")
    show ?thesis
      using True m k Cons.IH [of s3]
      by (cases r2; cases r3) (simp_all add: call_moveTo_threads call_click_threads)
  next
    case False
    let ?s1 = "s\<lparr>status_label := Clicking (ocr_text c) (i + 1) (click_count c)\<rparr>"
    obtain r2 s2 where m: "call_moveTo h p ?s1 = (r2, s2)" by (cases "call_moveTo h p ?s1")
    obtain r3 s3 where k: "call_click h s2 = (r3, s3)" by (cases "call_click h s2")
    have sw: "s\<lparr>threads := ts, status_label := st\<rparr> = s\<lparr>status_label := st, threads := ts\<rparr>" for st
      by simp
    have "call_moveTo h p (?s1\<lparr>threads := ts\<rparr>) = (r2, s2\<lparr>threads := ts\<rparr>)"
      using m by (simp only: call_moveTo_threads) simp
    then show ?thesis
      using False m k Cons.IH [of s3]
      by (cases r2; cases r3) (simp_all add: call_click_threads sw)
  qed
qed

lemma process_capture_threads:
  "process_capture h im c (s\<lparr>threads := ts\<rparr>) =
     apsnd (\<lambda>t. t\<lparr>threads := ts\<rparr>) (process_capture h im c s)"
proof -
  have sw: "s\<lparr>threads := ts, status_label := st\<rparr> = s\<lparr>status_label := st, threads := ts\<rparr>" for st
    by simp
  show ?thesis
    by (simp add: process_capture_def Let_def click_loop_threads sw split: sum.splits)
qed

lemma run_captures_threads:
  "run_captures h im cs (s\<lparr>threads := ts\<rparr>) =
     apsnd (\<lambda>t. t\<lparr>threads := ts\<rparr>) (run_captures h im cs s)"
proof (induction cs arbitrary: s)
  case Nil
  then show ?case by simp
next
  case (Cons c cs)
  obtain r t where p: "process_capture h im c s = (r, t)"
    by (cases "process_capture h im c s")
  show ?case
    using p Cons.IH [of t] by (cases r) (simp_all add: process_capture_threads)
qed

lemma finish_batch_threads:
  "finish_batch h im original cs (s\<lparr>threads := ts\<rparr>) =
     apsnd (\<lambda>t. t\<lparr>threads := ts\<rparr>) (finish_batch h im original cs s)"
proof -
  obtain r1 s1 where r: "run_captures h im cs s = (r1, s1)"
    by (cases "run_captures h im cs s")
  obtain r2 s2 where m: "call_moveTo h original s1 = (r2, s2)"
    by (cases "call_moveTo h original s1")
  show ?thesis
    using r m
    by (cases r1; cases r2; cases im)
      (simp_all add: finish_batch_def run_captures_threads call_moveTo_threads)
qed


lemma threads_same_store: "same_store s t \<Longrightarrow> threads t = threads s"
  by (simp add: same_store_def)

lemma set_progress_twice:
  "set_progress i p (set_progress i q s) = set_progress i p s"
  by (cases "i < length (threads s)") (simp_all add: set_progress_def list_update_beyond not_less)

lemma set_progress_over:
  "threads u = threads s \<Longrightarrow>
   set_progress i p (u\<lparr>threads := threads (set_progress i q s)\<rparr>) = set_progress i p u"
  by (cases "i < length (threads s)") (simp_all add: set_progress_def list_update_beyond not_less)

lemma thread_set_progress:
  "i < length (threads s) \<Longrightarrow>
   length (threads (set_progress i p s)) = length (threads s) \<and>
   progress (threads (set_progress i p s) ! i) = p \<and>
   keep_running (threads (set_progress i p s) ! i) = keep_running (threads s ! i)"
  by (simp add: set_progress_def)

lemma wait_finished:
  "progress (threads s ! i) = Finished \<Longrightarrow> wait h i s = Some s"
  by (subst wait.simps) (simp add: is_running_def)

lemma wait_loop_head:
  assumes "i < length (threads s)" and "\<not> keep_running (threads s ! i)"
    and "progress (threads s ! i) = LoopHead"
  shows "wait h i s = Some (set_progress i Finished s)"
proof -
  have "worker_step h i s = set_progress i Finished s"
    using assms by (simp add: worker_step_def)
  moreover have "wait h i (set_progress i Finished s) = Some (set_progress i Finished s)"
    using assms(1) by (intro wait_finished) (simp add: thread_set_progress)
  ultimately show ?thesis
    using assms by (subst wait.simps) (simp add: is_running_def)
qed

lemma wait_sleeping:
  assumes "i < length (threads s)" and "\<not> keep_running (threads s ! i)"
    and "progress (threads s ! i) = Sleeping"
  shows "wait h i s = Some (set_progress i Finished s)"
proof -
  let ?t = "set_progress i LoopHead s"
  have "worker_step h i s = ?t"
    using assms by (simp add: worker_step_def)
  moreover have "wait h i ?t = Some (set_progress i Finished ?t)"
    using assms(1,2) by (intro wait_loop_head) (simp_all add: thread_set_progress)
  ultimately show ?thesis
    using assms by (subst wait.simps) (simp add: is_running_def set_progress_twice)
qed

lemma wait_in_batch:
  assumes "i < length (threads s)" and "\<not> keep_running (threads s ! i)"
    and "progress (threads s ! i) = InBatch original k"
    and "rest = drop k (captures s)"
  shows "wait h i s =
           Some (set_progress i Finished (snd (finish_batch h True original rest s)))"
  using assms
proof (induction rest arbitrary: s k)
  case Nil
  let ?u = "snd (call_moveTo h original s)"
  let ?t = "set_progress i Sleeping ?u"
  have k: "\<not> k < length (captures s)"
    using Nil.prems(4) by simp
  have th: "threads ?u = threads s"
    using same_store_call_moveTo [of s h original] by (rule threads_same_store)
  have step: "worker_step h i s = ?t"
    using Nil.prems(1-3) k by (simp add: worker_step_def)
  have "wait h i ?t = Some (set_progress i Finished ?t)"
    using Nil.prems(1,2) th by (intro wait_sleeping) (simp_all add: thread_set_progress)
  then have w: "wait h i ?t = Some (set_progress i Finished ?u)"
    by (simp add: set_progress_twice)
  have fb: "snd (finish_batch h True original [] s) = ?u"
    by (cases "call_moveTo h original s"; cases "fst (call_moveTo h original s)")
      (simp_all add: finish_batch_def)
  show ?case
    using Nil.prems(1-3) step w fb by (subst wait.simps) (simp add: is_running_def)
next
  case (Cons c cs)
  have k: "k < length (captures s)"
    using Cons.prems(4) by (cases "k < length (captures s)") simp_all
  have c: "captures s ! k = c" and cs: "cs = drop (Suc k) (captures s)"
    using Cons.prems(4) k by (simp_all add: Cons_nth_drop_Suc [symmetric])
  obtain r s' where p: "process_capture h True c s = (r, s')"
    by (cases "process_capture h True c s")
  have st: "same_store s s'"
    using same_store_process_capture [of s h True c] p by simp
  have th: "threads s' = threads s"
    using st by (rule threads_same_store)
  have caps: "captures s' = captures s"
    using st by (simp add: same_store_def)
  show ?case
  proof (cases r)
    case (Some e)
    let ?t = "set_progress i Sleeping s'"
    have step: "worker_step h i s = ?t"
      using Cons.prems(1-3) k c p Some by (simp add: worker_step_def)
    have "wait h i ?t = Some (set_progress i Finished ?t)"
      using Cons.prems(1,2) th by (intro wait_sleeping) (simp_all add: thread_set_progress)
    then have w: "wait h i ?t = Some (set_progress i Finished s')"
      by (simp add: set_progress_twice)
    have fb: "snd (finish_batch h True original (c # cs) s) = s'"
      using p Some by (simp add: finish_batch_def)
    show ?thesis
      using Cons.prems(1-3) step w fb by (subst wait.simps) (simp add: is_running_def)
  next
    case None
    let ?t = "set_progress i (InBatch original (Suc k)) s'"
    let ?u = "snd (finish_batch h True original cs s')"
    have step: "worker_step h i s = ?t"
      using Cons.prems(1-3) k c p None by (simp add: worker_step_def)
    have "cs = drop (Suc k) (captures ?t)"
      using cs caps by (simp add: set_progress_def)
    then have "wait h i ?t =
        Some (set_progress i Finished (snd (finish_batch h True original cs ?t)))"
      using Cons.prems(1,2) th
      by (intro Cons.IH [of ?t "Suc k"]) (simp_all add: thread_set_progress)
    moreover have "snd (finish_batch h True original cs ?t) = ?u\<lparr>threads := threads ?t\<rparr>"
      by (simp add: set_progress_def finish_batch_threads)
    moreover have "threads ?u = threads s'"
      using same_store_finish_batch [of s' h True original cs] by (rule threads_same_store)
    ultimately have w: "wait h i ?t = Some (set_progress i Finished ?u)"
      by (simp add: set_progress_over)
    have fb: "snd (finish_batch h True original (c # cs) s) = ?u"
      using p None by (simp add: finish_batch_def)
    show ?thesis
      using Cons.prems(1-3) step w fb by (subst wait.simps) (simp add: is_running_def)
  qed
qed

lemma stop_when_idle:
  "\<not> runner_running s \<Longrightarrow>
   stop_infinite_execution h s =
     Some (s\<lparr>event_filter := False, status_label := RunnerStopped\<rparr>)"
  by (cases "worker_thread s") (auto simp: stop_infinite_execution_def runner_running_def)

lemma worker_overwrite:
  "(t :: worker)\<lparr>keep_running := a, progress := p\<rparr> = \<lparr>keep_running = a, progress = p\<rparr>"
  by (cases t) simp

lemma lowered_flag:
  assumes "i < length (threads s)"
  shows "i < length (threads (s\<lparr>threads := (threads s)[i := (threads s ! i)\<lparr>keep_running := False\<rparr>]\<rparr>)) \<and>
         \<not> keep_running (threads (s\<lparr>threads := (threads s)[i := (threads s ! i)\<lparr>keep_running := False\<rparr>]\<rparr>) ! i) \<and>
         progress (threads (s\<lparr>threads := (threads s)[i := (threads s ! i)\<lparr>keep_running := False\<rparr>]\<rparr>) ! i) =
           progress (threads s ! i)"
  using assms by simp

lemma stop_in_batch:
  assumes "worker_thread s = Some i" and "i < length (threads s)"
    and "progress (threads s ! i) = InBatch original k"
  shows "stop_infinite_execution h s =
           Some ((snd (finish_batch h True original (drop k (captures s)) s))
                   \<lparr>threads := (threads s)[i := \<lparr>keep_running = False, progress = Finished\<rparr>],
                    worker_thread := None, event_filter := False,
                    status_label := RunnerStopped\<rparr>)"
proof -
  let ?s1 = "s\<lparr>threads := (threads s)[i := (threads s ! i)\<lparr>keep_running := False\<rparr>]\<rparr>"
  let ?rest = "drop k (captures s)"
  let ?u = "snd (finish_batch h True original ?rest s)"
  have l: "i < length (threads ?s1)" "\<not> keep_running (threads ?s1 ! i)"
    "progress (threads ?s1 ! i) = InBatch original k" "?rest = drop k (captures ?s1)"
    using assms(2,3) by simp_all
  have w: "wait h i ?s1 =
      Some (set_progress i Finished (snd (finish_batch h True original ?rest ?s1)))"
    using l by (rule wait_in_batch)
  have fb: "snd (finish_batch h True original ?rest ?s1) = ?u\<lparr>threads := threads ?s1\<rparr>"
    by (simp add: finish_batch_threads)
  have "set_progress i Finished (?u\<lparr>threads := threads ?s1\<rparr>) =
          ?u\<lparr>threads := (threads s)[i := \<lparr>keep_running = False, progress = Finished\<rparr>]\<rparr>"
    using assms(2) by (simp add: set_progress_def worker_overwrite)
  with w fb have "wait h i ?s1 =
      Some (?u\<lparr>threads := (threads s)[i := \<lparr>keep_running = False, progress = Finished\<rparr>]\<rparr>)"
    by simp
  then show ?thesis
    using assms by (simp add: stop_infinite_execution_def is_running_def)
qed

lemma stop_between_batches:
  assumes "worker_thread s = Some i" and "i < length (threads s)"
    and "progress (threads s ! i) = LoopHead \<or> progress (threads s ! i) = Sleeping"
  shows "stop_infinite_execution h s =
           Some (s\<lparr>threads := (threads s)[i := \<lparr>keep_running = False, progress = Finished\<rparr>],
                   worker_thread := None, event_filter := False,
                   status_label := RunnerStopped\<rparr>)"
proof -
  let ?s1 = "s\<lparr>threads := (threads s)[i := (threads s ! i)\<lparr>keep_running := False\<rparr>]\<rparr>"
  have l: "i < length (threads ?s1)" "\<not> keep_running (threads ?s1 ! i)"
    "progress (threads ?s1 ! i) = progress (threads s ! i)"
    using assms(2) by simp_all
  have "wait h i ?s1 = Some (set_progress i Finished ?s1)"
    using assms(3) l wait_loop_head [of i ?s1 h] wait_sleeping [of i ?s1 h] by metis
  moreover have "set_progress i Finished ?s1 =
      s\<lparr>threads := (threads s)[i := \<lparr>keep_running = False, progress = Finished\<rparr>]\<rparr>"
    using assms(2) by (simp add: set_progress_def worker_overwrite)
  ultimately show ?thesis
    using assms by (auto simp: stop_infinite_execution_def is_running_def)
qed


lemma one_loop_same_store: "same_store s t \<Longrightarrow> one_loop s \<Longrightarrow> one_loop t"
  by (simp add: same_store_def one_loop_def)

lemma load_items_threads:
  "threads (snd (load_items h ds s)) = threads s \<and>
   worker_thread (snd (load_items h ds s)) = worker_thread s"
  by (induction ds arbitrary: s) (simp_all split: sum.splits)

lemma startup_threads: "threads (snd (startup h file w)) = []"
proof (cases "file")
  case None
  then show ?thesis by (simp add: startup_def load_captures_from_json_def init_window_def)
next
  case (Some f)
  let ?s = "init_window file w :: ('a, 'b, 'c) system"
  show ?thesis
  proof (cases "json_load h f")
    case (Inl e)
    with Some show ?thesis
      by (simp add: startup_def load_captures_from_json_def init_window_def)
  next
    case (Inr ds)
    obtain r t where l: "load_items h ds (?s\<lparr>captures := [], capture_list := []\<rparr>) = (r, t)"
      by (cases "load_items h ds (?s\<lparr>captures := [], capture_list := []\<rparr>)")
    have "threads t = []"
      using load_items_threads [of h ds "?s\<lparr>captures := [], capture_list := []\<rparr>"] l
      by (simp add: init_window_def)
    with Some Inr l show ?thesis
      by (cases r) (simp_all add: startup_def load_captures_from_json_def init_window_def)
  qed
qed

lemma one_loop_start: "one_loop s \<Longrightarrow> one_loop (start_infinite_execution s)"
proof (cases "runner_running s")
  case True
  assume "one_loop s"
  with True show ?thesis by (simp add: start_infinite_execution_def one_loop_def)
next
  case False
  assume inv: "one_loop s"
  have idle: "\<not> is_running (threads s ! j)" if "j < length (threads s)" for j
  proof
    assume r: "is_running (threads s ! j)"
    with inv that have "worker_thread s = Some j" by (simp add: one_loop_def)
    with that r have "runner_running s" by (simp add: runner_running_def)
    with False show False by simp
  qed
  show ?thesis
    using False idle
    by (auto simp: start_infinite_execution_def one_loop_def nth_append less_Suc_eq)
qed

lemma wait_lowered:
  assumes "i < length (threads s)" and "\<not> keep_running (threads s ! i)"
  shows "\<exists>u. same_store s u \<and> wait h i s = Some (set_progress i Finished u)"
proof (cases "progress (threads s ! i)")
  case LoopHead
  with assms have "wait h i s = Some (set_progress i Finished s)" by (rule wait_loop_head)
  then show ?thesis using same_store_refl by blast
next
  case (InBatch original k)
  with assms have "wait h i s =
      Some (set_progress i Finished
              (snd (finish_batch h True original (drop k (captures s)) s)))"
    by (intro wait_in_batch) simp_all
  then show ?thesis using same_store_finish_batch by blast
next
  case Sleeping
  with assms have "wait h i s = Some (set_progress i Finished s)" by (rule wait_sleeping)
  then show ?thesis using same_store_refl by blast
next
  case Finished
  then have "wait h i s = Some s" by (rule wait_finished)
  moreover have "(threads s ! i)\<lparr>progress := Finished\<rparr> = threads s ! i"
    using Finished by (cases "threads s ! i") simp
  then have "set_progress i Finished s = s"
    by (simp add: set_progress_def)
  ultimately show ?thesis using same_store_refl [of s] by auto
qed

lemma one_loop_stop:
  assumes "one_loop s" and "stop_infinite_execution h s = Some s'"
  shows "one_loop s'"
proof (cases "runner_running s")
  case False
  then have "s' = s\<lparr>event_filter := False, status_label := RunnerStopped\<rparr>"
    using assms(2) by (simp add: stop_when_idle)
  with assms(1) show ?thesis by (simp add: one_loop_def)
next
  case True
  then obtain i where i: "worker_thread s = Some i" "i < length (threads s)"
    "is_running (threads s ! i)"
    by (auto simp: runner_running_def split: option.splits)
  let ?s1 = "s\<lparr>threads := (threads s)[i := (threads s ! i)\<lparr>keep_running := False\<rparr>]\<rparr>"
  have "i < length (threads ?s1)" and "\<not> keep_running (threads ?s1 ! i)"
    using i(2) by simp_all
  then obtain u where u: "same_store ?s1 u" "wait h i ?s1 = Some (set_progress i Finished u)"
    using wait_lowered [of i ?s1 h] by blast
  have s': "s' = (set_progress i Finished u)
                   \<lparr>worker_thread := None, event_filter := False, status_label := RunnerStopped\<rparr>"
    using assms(2) i u(2) by (simp add: stop_infinite_execution_def)
  have tu: "threads u = (threads s)[i := (threads s ! i)\<lparr>keep_running := False\<rparr>]"
    using u(1) by (simp add: same_store_def)
  have "\<not> is_running (threads s' ! j)" if "j < length (threads s')" for j
  proof (cases "j = i")
    case True
    with i(2) show ?thesis by (simp add: s' tu set_progress_def is_running_def)
  next
    case False
    from that have "j < length (threads s)" by (simp add: s' tu set_progress_def)
    moreover have "threads s' ! j = threads s ! j"
      using False by (simp add: s' tu set_progress_def)
    moreover have "worker_thread s \<noteq> Some j" using False i(1) by simp
    ultimately show ?thesis using assms(1) by (auto simp: one_loop_def)
  qed
  then show ?thesis by (simp add: one_loop_def)
qed

lemma worker_step_shape:
  "worker_step h i s = s \<or>
   (\<exists>p u. same_store s u \<and> i < length (threads s) \<and> is_running (threads s ! i) \<and>
          worker_step h i s = set_progress i p u)"
proof (cases "i < length (threads s)")
  case False
  then show ?thesis by (simp add: worker_step_def)
next
  case True
  show ?thesis
  proof (cases "progress (threads s ! i)")
    case LoopHead
    have "same_store s s" by (rule same_store_refl)
    moreover have "is_running (threads s ! i)" using LoopHead by (simp add: is_running_def)
    moreover have "\<exists>p. worker_step h i s = set_progress i p s"
      using True LoopHead by (auto simp: worker_step_def split: sum.splits)
    ultimately show ?thesis using True by blast
  next
    case (InBatch original k)
    have run: "is_running (threads s ! i)" using InBatch by (simp add: is_running_def)
    show ?thesis
    proof (cases "k < length (captures s)")
      case False
      then have "worker_step h i s = set_progress i Sleeping (snd (call_moveTo h original s))"
        using True InBatch by (simp add: worker_step_def)
      then show ?thesis using True run same_store_call_moveTo by blast
    next
      case inside: True
      obtain r t where p: "process_capture h True (captures s ! k) s = (r, t)"
        by (cases "process_capture h True (captures s ! k) s")
      have st: "same_store s t"
        using same_store_process_capture [of s h True "captures s ! k"] p by simp
      have "worker_step h i s =
              set_progress i (case r of None \<Rightarrow> InBatch original (Suc k) | Some e \<Rightarrow> Sleeping) t"
        using True InBatch inside p by (cases r) (simp_all add: worker_step_def)
      then have "\<exists>q. worker_step h i s = set_progress i q t" ..
      then show ?thesis using True run st by blast
    qed
  next
    case Sleeping
    have "same_store s s" by (rule same_store_refl)
    moreover have "is_running (threads s ! i)" using Sleeping by (simp add: is_running_def)
    moreover have "worker_step h i s = set_progress i LoopHead s"
      using True Sleeping by (simp add: worker_step_def)
    ultimately show ?thesis using True by blast
  next
    case Finished
    then show ?thesis using True by (simp add: worker_step_def)
  qed
qed

lemma one_loop_step: "one_loop s \<Longrightarrow> one_loop (worker_step h i s)"
proof -
  assume inv: "one_loop s"
  from worker_step_shape [of h i s] show ?thesis
  proof
    assume "worker_step h i s = s"
    with inv show ?thesis by simp
  next
    assume "\<exists>p u. same_store s u \<and> i < length (threads s) \<and> is_running (threads s ! i) \<and>
              worker_step h i s = set_progress i p u"
    then obtain p u where u: "same_store s u" "i < length (threads s)"
      "is_running (threads s ! i)" "worker_step h i s = set_progress i p u"
      by blast
    have wt: "worker_thread s = Some i" using inv u(2,3) by (simp add: one_loop_def)
    have "worker_thread (set_progress i p u) = Some i"
      using u(1) wt by (simp add: set_progress_def same_store_def)
    moreover have "j < length (threads (set_progress i p u)) \<Longrightarrow>
        is_running (threads (set_progress i p u) ! j) \<Longrightarrow> j = i" for j
      using u(1) inv wt
      by (cases "j = i") (auto simp: set_progress_def same_store_def one_loop_def)
    ultimately show ?thesis
      using u(4) by (auto simp: one_loop_def)
  qed
qed

lemma one_loop_delete: "one_loop s \<Longrightarrow> one_loop (snd (delete_capture h row s))"
  by (simp add: delete_capture_def save_captures_to_json_def Let_def one_loop_def)

lemma one_loop_cycle: "one_loop s \<Longrightarrow> one_loop (snd (set_click_count h row s))"
  by (simp add: set_click_count_def save_captures_to_json_def Let_def one_loop_def)

lemma reachable_one_loop: "reachable h s \<Longrightarrow> one_loop s"
proof (induction rule: reachable.induct)
  case (at_startup f w)
  show ?case by (simp add: one_loop_def startup_threads)
next
  case (after_start s)
  then show ?case by (simp add: one_loop_start)
next
  case (after_stop s s')
  then show ?case using one_loop_stop by blast
next
  case (after_step s i)
  then show ?case by (simp add: one_loop_step)
next
  case (after_batch s)
  from same_store_execute_all_clicks after_batch.IH show ?case
    by (rule one_loop_same_store)
next
  case (after_single s row)
  from same_store_execute_single_click after_single.IH show ?case
    by (rule one_loop_same_store)
next
  case (after_delete s row)
  then show ?case by (simp add: one_loop_delete)
next
  case (after_cycle s row)
  then show ?case by (simp add: one_loop_cycle)
qed


lemma start_when_running:
  "runner_running s \<Longrightarrow>
   start_infinite_execution s = s\<lparr>dialogs := dialogs s @ [AlreadyRunning]\<rparr>"
  by (simp add: start_infinite_execution_def)

lemma reachable_single_loop:
  assumes "reachable h s"
    and "i < length (threads s)" and "j < length (threads s)"
    and "is_running (threads s ! i)" and "is_running (threads s ! j)"
  shows "i = j"
proof -
  have "one_loop s" using assms(1) by (rule reachable_one_loop)
  then have "worker_thread s = Some i" and "worker_thread s = Some j"
    using assms(2-5) unfolding one_loop_def by blast+
  then show ?thesis by simp
qed

text \<open>
  Claim C7. In every state the program can reach, at most one worker thread is running.
  A start request while the runner is Running only shows the notice that it is already
  running: no thread is created and nothing else changes. A stop request while the
  runner is Idle leaves the threads, the reference to the worker, the store, the file,
  the desktop and the pointer calls as they are (it resets the status text and removes
  the key filter). A stop request while the worker is inside a batch returns, and when
  it does the rest of that batch has been carried out as \<open>finish_batch\<close> does it, the
  regions from the reached position on and the move back of the pointer included, and
  the thread has returned; between two batches it returns with no pointer call made.
\<close>

theorem runner_state_machine:
  "(reachable h s \<longrightarrow>
      (\<forall>i j. i < length (threads s) \<and> j < length (threads s) \<and>
             is_running (threads s ! i) \<and> is_running (threads s ! j) \<longrightarrow> i = j)) \<and>
   (runner_running s \<longrightarrow>
      start_infinite_execution s = s\<lparr>dialogs := dialogs s @ [AlreadyRunning]\<rparr>) \<and>
   (\<not> runner_running s \<longrightarrow>
      stop_infinite_execution h s =
        Some (s\<lparr>event_filter := False, status_label := RunnerStopped\<rparr>)) \<and>
   (\<forall>i original k.
      worker_thread s = Some i \<and> i < length (threads s) \<and>
      progress (threads s ! i) = InBatch original k \<longrightarrow>
      stop_infinite_execution h s =
        Some ((snd (finish_batch h True original (drop k (captures s)) s))
                \<lparr>threads := (threads s)[i := \<lparr>keep_running = False, progress = Finished\<rparr>],
                 worker_thread := None, event_filter := False,
                 status_label := RunnerStopped\<rparr>)) \<and>
   (\<forall>i. worker_thread s = Some i \<and> i < length (threads s) \<and>
        (progress (threads s ! i) = LoopHead \<or> progress (threads s ! i) = Sleeping) \<longrightarrow>
      stop_infinite_execution h s =
        Some (s\<lparr>threads := (threads s)[i := \<lparr>keep_running = False, progress = Finished\<rparr>],
                worker_thread := None, event_filter := False,
                status_label := RunnerStopped\<rparr>))"
proof (intro conjI allI impI)
  fix i j
  assume "reachable h s"
    and "i < length (threads s) \<and> j < length (threads s) \<and>
         is_running (threads s ! i) \<and> is_running (threads s ! j)"
  then show "i = j" using reachable_single_loop by blast
next
  assume "runner_running s"
  then show "start_infinite_execution s = s\<lparr>dialogs := dialogs s @ [AlreadyRunning]\<rparr>"
    by (rule start_when_running)
next
  assume "\<not> runner_running s"
  then show "stop_infinite_execution h s =
      Some (s\<lparr>event_filter := False, status_label := RunnerStopped\<rparr>)"
    by (rule stop_when_idle)
next
  fix i original k
  assume "worker_thread s = Some i \<and> i < length (threads s) \<and>
          progress (threads s ! i) = InBatch original k"
  then show "stop_infinite_execution h s =
      Some ((snd (finish_batch h True original (drop k (captures s)) s))
              \<lparr>threads := (threads s)[i := \<lparr>keep_running = False, progress = Finished\<rparr>],
               worker_thread := None, event_filter := False,
               status_label := RunnerStopped\<rparr>)"
    by (simp add: stop_in_batch)
next
  fix i
  assume "worker_thread s = Some i \<and> i < length (threads s) \<and>
          (progress (threads s ! i) = LoopHead \<or> progress (threads s ! i) = Sleeping)"
  then show "stop_infinite_execution h s =
      Some (s\<lparr>threads := (threads s)[i := \<lparr>keep_running = False, progress = Finished\<rparr>],
              worker_thread := None, event_filter := False,
              status_label := RunnerStopped\<rparr>)"
    using stop_between_batches [of s i h] by blast
qed

theorem runner_state_machine_witness:
  "reachable (sample_host [71, 111])
     (start_infinite_execution (start_infinite_execution
        (snd (startup (sample_host [71, 111]) None 0)))) \<and>
   threads (start_infinite_execution (start_infinite_execution
      (snd (startup (sample_host [71, 111]) None 0)))) =
     [\<lparr>keep_running = True, progress = LoopHead\<rparr>] \<and>
   start_infinite_execution sample_running =
     sample_running\<lparr>dialogs := [AlreadyRunning]\<rparr> \<and>
   stop_infinite_execution (sample_host [71, 111]) (sample_store 2) =
     Some ((sample_store 2)\<lparr>event_filter := False, status_label := RunnerStopped\<rparr>) \<and>
   stop_infinite_execution (sample_host [71, 111]) sample_running =
     Some (sample_running
       \<lparr>threads := [\<lparr>keep_running = False, progress = Finished\<rparr>],
        worker_thread := None, event_filter := False, status_label := RunnerStopped,
        desktop := 5,
        pointer_calls := [MoveTo (35, 20), Click, MoveTo (35, 20), Click, MoveTo (7, 7)]\<rparr>) \<and>
   stop_infinite_execution (sample_host [71, 111])
     (start_infinite_execution (snd (startup (sample_host [71, 111]) None 0))) =
     Some ((init_window None 0)
       \<lparr>dialogs := [StartNotice],
        threads := [\<lparr>keep_running = False, progress = Finished\<rparr>],
        status_label := RunnerStopped\<rparr>)"
proof -
  let ?h = "sample_host [71, 111]"
  let ?s0 = "snd (startup ?h None 0)"
  let ?s2 = "start_infinite_execution (start_infinite_execution ?s0)"
  note sm = runner_state_machine
  have r: "reachable ?h ?s2"
    by (intro reachable.after_start reachable.at_startup)
  have s0: "?s0 = init_window None 0"
    by (simp add: startup_def load_captures_from_json_def init_window_def)
  have s1: "start_infinite_execution ?s0 =
      (init_window None 0)\<lparr>dialogs := [StartNotice],
         threads := [\<lparr>keep_running = True, progress = LoopHead\<rparr>],
         worker_thread := Some 0, event_filter := True, status_label := RunnerStarted\<rparr>"
    by (simp add: s0 start_infinite_execution_def runner_running_def init_window_def)
  have run1: "runner_running (start_infinite_execution ?s0)"
    by (simp add: s1 runner_running_def is_running_def init_window_def)
  have t: "threads ?s2 = [\<lparr>keep_running = True, progress = LoopHead\<rparr>]"
    using sm [of ?h "start_infinite_execution ?s0"] run1 by (simp add: s1)
  have wt1: "worker_thread (start_infinite_execution ?s0) = Some 0 \<and>
      0 < length (threads (start_infinite_execution ?s0)) \<and>
      (progress (threads (start_infinite_execution ?s0) ! 0) = LoopHead \<or>
       progress (threads (start_infinite_execution ?s0) ! 0) = Sleeping)"
    by (simp add: s1)
  have d: "stop_infinite_execution ?h (start_infinite_execution ?s0) =
      Some ((start_infinite_execution ?s0)
        \<lparr>threads := (threads (start_infinite_execution ?s0))
                      [0 := \<lparr>keep_running = False, progress = Finished\<rparr>],
         worker_thread := None, event_filter := False, status_label := RunnerStopped\<rparr>)"
    using sm [of ?h "start_infinite_execution ?s0"] wt1 by blast
  have d': "stop_infinite_execution ?h (start_infinite_execution ?s0) =
      Some ((init_window None 0)
        \<lparr>dialogs := [StartNotice],
         threads := [\<lparr>keep_running = False, progress = Finished\<rparr>],
         status_label := RunnerStopped\<rparr>)"
    by (simp add: d) (simp add: s1 init_window_def)
  have run: "runner_running sample_running"
    by (simp add: sample_running_def runner_running_def is_running_def)
  have a: "start_infinite_execution sample_running =
      sample_running\<lparr>dialogs := [AlreadyRunning]\<rparr>"
    using sm [of ?h sample_running] run
    by (simp add: sample_running_def sample_store_def init_window_def)
  have idle: "\<not> runner_running (sample_store 2 :: (bytes, saved_dict list, nat) system)"
    by (simp add: sample_store_def init_window_def runner_running_def)
  have b: "stop_infinite_execution ?h (sample_store 2) =
      Some ((sample_store 2)\<lparr>event_filter := False, status_label := RunnerStopped\<rparr>)"
    using sm [of ?h "sample_store 2"] idle by blast
  have wt: "worker_thread sample_running = Some 0 \<and> 0 < length (threads sample_running) \<and>
      progress (threads sample_running ! 0) = InBatch (7, 7) 0"
    by (simp add: sample_running_def)
  have stop: "stop_infinite_execution ?h sample_running =
      Some ((snd (finish_batch ?h True (7, 7) (drop 0 (captures sample_running)) sample_running))
             \<lparr>threads := (threads sample_running)[0 := \<lparr>keep_running = False, progress = Finished\<rparr>],
              worker_thread := None, event_filter := False,
              status_label := RunnerStopped\<rparr>)"
    using sm [of ?h sample_running] wt by blast
  have fb: "snd (finish_batch ?h True (7, 7) (drop 0 (captures sample_running)) sample_running) =
      sample_running\<lparr>desktop := 5,
        pointer_calls := [MoveTo (35, 20), Click, MoveTo (35, 20), Click, MoveTo (7, 7)]\<rparr>"
    by (simp add: finish_batch_def process_capture_def sample_host_def sample_running_def
        sample_store_def init_window_def CaptureInfo_def strip_def call_moveTo_def
        call_click_def Let_def upt_rec)
  have c: "stop_infinite_execution ?h sample_running =
     Some (sample_running
       \<lparr>threads := [\<lparr>keep_running = False, progress = Finished\<rparr>],
        worker_thread := None, event_filter := False, status_label := RunnerStopped,
        desktop := 5,
        pointer_calls := [MoveTo (35, 20), Click, MoveTo (35, 20), Click, MoveTo (7, 7)]\<rparr>)"
    by (simp only: stop fb) (simp add: sample_running_def)
  show ?thesis using r t a b c d' by simp
qed

end
